theory Spec2Isabelle
  imports Main "HOL-Library.Sublist"
begin


section \<open>Text\<close>

text \<open>
  The script \<^verbatim>\<open>fix_test_files.py\<close> rewrites TypeScript test files by regular-expression
  substitution. A Python \<^verbatim>\<open>str\<close> is modelled as a \<^typ>\<open>string\<close>, one \<^typ>\<open>char\<close> per
  character: the \<^typ>\<open>char\<close> with code \<open>n\<close> is the character U+00\<open>n\<close>, so file names and
  file contents are the texts over U+0000 to U+00FF. The character classes and the case
  conversions below are those of Python on these characters.
\<close>

definition LF :: char where
  "LF = CHR 0x0A"

definition CR :: char where
  "CR = CHR 0x0D"

definition QUOTE :: char where
  "QUOTE = CHR 0x27"

subsection \<open>The string methods the script calls\<close>

text \<open>\<^verbatim>\<open>sub in s\<close>: the substring test.\<close>

fun contains :: "string \<Rightarrow> string \<Rightarrow> bool" where
  "contains sub [] = (sub = [])"
| "contains sub (x # xs) = (prefix sub (x # xs) \<or> contains sub xs)"

text \<open>
  \<^verbatim>\<open>s.replace(old, new)\<close>: every occurrence of \<open>old\<close>, leftmost first and not
  overlapping, is replaced; with an empty \<open>old\<close> Python puts \<open>new\<close> before every
  character and at the end.
\<close>

fun replace_scan :: "string \<Rightarrow> string \<Rightarrow> string \<Rightarrow> string" where
  "replace_scan old new [] = []"
| "replace_scan old new (x # xs) =
     (if prefix old (x # xs) then new @ replace_scan old new (drop (length old - 1) xs)
      else x # replace_scan old new xs)"

definition replace :: "string \<Rightarrow> string \<Rightarrow> string \<Rightarrow> string" where
  "replace old new s =
     (if old = [] then new @ concat (map (\<lambda>c. c # new) s) else replace_scan old new s)"

text \<open>\<^verbatim>\<open>os.path.basename\<close> (POSIX): what follows the last slash.\<close>

fun basename :: "string \<Rightarrow> string" where
  "basename [] = []"
| "basename (x # xs) =
     (if CHR ''/'' \<in> set xs then basename xs else if x = CHR ''/'' then xs else x # xs)"

text \<open>
  Lower case of one character: the letters A to Z and the capital letters of
  U+00C0 to U+00DE (the sign U+00D7 is no letter) are 32 below their small letters.
\<close>

definition lower_char :: "char \<Rightarrow> char" where
  "lower_char c =
     (let n = (of_char c :: nat)
      in if (0x41 \<le> n \<and> n \<le> 0x5A) \<or> (0xC0 \<le> n \<and> n \<le> 0xDE \<and> n \<noteq> 0xD7)
         then char_of (n + 0x20) else c)"

text \<open>
  Case conversion of a file name leaves the characters of the model in three cases: the
  capitals of U+00FF and of U+00B5 are U+0178 and U+039C, and the small letter of U+039C
  is U+03BC. A \<open>point\<close> is a character of the model or one of these three.
\<close>

datatype point = Latin char | U0178 | U039C | U03BC

text \<open>
  Title case of one character, as \<^verbatim>\<open>capitalize\<close> uses it for the first one: the capital
  letter, which for U+00DF is the two letters \<^verbatim>\<open>Ss\<close>.
\<close>

definition title :: "char \<Rightarrow> point list" where
  "title c =
     (let n = (of_char c :: nat)
      in if n = 0xB5 then [U039C]
         else if n = 0xDF then [Latin CHR ''S'', Latin CHR ''s'']
         else if n = 0xFF then [U0178]
         else if (0x61 \<le> n \<and> n \<le> 0x7A) \<or> (0xE0 \<le> n \<and> n \<le> 0xFE \<and> n \<noteq> 0xF7)
         then [Latin (char_of (n - 0x20))]
         else [Latin c])"

fun lower_point :: "point \<Rightarrow> point" where
  "lower_point (Latin c) = Latin (lower_char c)"
| "lower_point U0178 = Latin (CHR 0xFF)"
| "lower_point U039C = U03BC"
| "lower_point U03BC = U03BC"

text \<open>\<^verbatim>\<open>s.lower()\<close>, which the script calls on the capitalized name.\<close>

definition lower :: "point list \<Rightarrow> point list" where
  "lower s = map lower_point s"

text \<open>\<^verbatim>\<open>s.capitalize()\<close>: the first character in title case, every other one in lower case.\<close>

fun capitalize :: "string \<Rightarrow> point list" where
  "capitalize [] = []"
| "capitalize (c # cs) = title c @ map (\<lambda>d. Latin (lower_char d)) cs"

section \<open>The regular expressions of the script\<close>

text \<open>
  Every pattern the script gives to \<^verbatim>\<open>re.sub\<close> is a sequence of literal characters,
  of greedy repetitions \<^verbatim>\<open>*\<close> and \<^verbatim>\<open>+\<close> of a one-character class, and of groups
  that only capture. A pattern is kept as the list of its alternatives (the branches
  of a top-level \<^verbatim>\<open>|\<close>), each one a list of atoms.
\<close>

datatype cls =
    Is char      \<comment> \<open>a literal character\<close>
  | Not char     \<comment> \<open>\<^verbatim>\<open>[^c]\<close>\<close>
  | Space        \<comment> \<open>\<^verbatim>\<open>\s\<close>\<close>
  | Digit        \<comment> \<open>\<^verbatim>\<open>\d\<close>\<close>
  | Dot          \<comment> \<open>\<^verbatim>\<open>.\<close> without the DOTALL flag\<close>
  | Far          \<comment> \<open>a literal character beyond U+00FF, which no character of a text is\<close>

fun mem :: "cls \<Rightarrow> char \<Rightarrow> bool" where
  "mem (Is c) x = (x = c)"
| "mem (Not c) x = (x \<noteq> c)"
| "mem Space x =
     (x \<in> set [CHR 0x09, CHR 0x0A, CHR 0x0B, CHR 0x0C, CHR 0x0D,
                CHR 0x1C, CHR 0x1D, CHR 0x1E, CHR 0x1F, CHR 0x20, CHR 0x85, CHR 0xA0])"
| "mem Digit x = (x \<in> set ''0123456789'')"
| "mem Dot x = (x \<noteq> CHR 0x0A)"
| "mem Far x = False"

datatype atom = One cls | Star cls | Plus cls

type_synonym regex = "atom list list"

text \<open>A literal string as atoms.\<close>

definition lit :: "string \<Rightarrow> atom list" where
  "lit s = map (\<lambda>c. One (Is c)) s"

text \<open>
  The backtracking matcher, anchored at the start of the text. It returns the text each
  atom consumed, in order, and the text left after the match. A repetition is greedy:
  it first tries to take one more character and gives it back only when the rest of the
  pattern fails.
\<close>

fun grow :: "char \<Rightarrow> string list \<times> string \<Rightarrow> string list \<times> string" where
  "grow x ([], r) = ([[x]], r)"
| "grow x (g # gs, r) = ((x # g) # gs, r)"

fun rmatch :: "atom list \<Rightarrow> string \<Rightarrow> (string list \<times> string) option" where
  "rmatch [] s = Some ([], s)"
| "rmatch (One c # as) [] = None"
| "rmatch (One c # as) (x # xs) =
     (if mem c x
      then (case rmatch as xs of None \<Rightarrow> None | Some (gs, r) \<Rightarrow> Some ([x] # gs, r))
      else None)"
| "rmatch (Plus c # as) [] = None"
| "rmatch (Plus c # as) (x # xs) =
     (if mem c x then map_option (grow x) (rmatch (Star c # as) xs) else None)"
| "rmatch (Star c # as) [] =
     (case rmatch as [] of None \<Rightarrow> None | Some (gs, r) \<Rightarrow> Some ([] # gs, r))"
| "rmatch (Star c # as) (x # xs) =
     (case (if mem c x then rmatch (Star c # as) xs else None) of
        Some m \<Rightarrow> Some (grow x m)
      | None \<Rightarrow> (case rmatch as (x # xs) of None \<Rightarrow> None | Some (gs, r) \<Rightarrow> Some ([] # gs, r)))"

text \<open>Alternatives are tried in order; the first that matches wins.\<close>

fun first_match :: "regex \<Rightarrow> string \<Rightarrow> (string list \<times> string) option" where
  "first_match [] s = None"
| "first_match (p # ps) s =
     (case rmatch p s of Some m \<Rightarrow> Some m | None \<Rightarrow> first_match ps s)"

text \<open>
  \<^verbatim>\<open>re.sub(pattern, repl, text)\<close>: the text is scanned from the left; at a match the
  replacement is written and the scan goes on behind the match, otherwise one character
  is copied. The replacement is a function of the captured texts. Every alternative of
  every pattern modelled here begins with one character, so no match is empty; what
  Python does at an empty match is not modelled, and the scan passes over such a match.
\<close>

fun re_sub :: "regex \<Rightarrow> (string list \<Rightarrow> string) \<Rightarrow> string \<Rightarrow> string" where
  "re_sub p repl [] = []"
| "re_sub p repl (x # xs) =
     (case first_match p (x # xs) of
        None \<Rightarrow> x # re_sub p repl xs
      | Some (gs, r) \<Rightarrow>
          if length r < Suc (length xs) then repl gs @ re_sub p repl r
          else x # re_sub p repl xs)"

text \<open>The text captured by a group made of the atoms \<open>i\<close> up to \<open>j\<close> (excluded).\<close>

definition capture :: "nat \<Rightarrow> nat \<Rightarrow> string list \<Rightarrow> string" where
  "capture i j gs = concat (take (j - i) (drop i gs))"

subsection \<open>A pattern built at run time\<close>

text \<open>
  \<^verbatim>\<open>fix_method_calls\<close> builds one pattern from the entity name without escaping it, so
  the name is read as regular-expression syntax. \<open>parse\<close> reads the pattern text where it
  only uses literal characters, \<^verbatim>\<open>.\<close>, an escaped dot and \<^verbatim>\<open>|\<close> between alternatives
  that are not empty; anything else takes the pattern out of the fragment modelled here.
\<close>

definition BACKSLASH :: char where
  "BACKSLASH = CHR 0x5C"

definition metachars :: "char list" where
  "metachars = [CHR ''^'', CHR ''$'', CHR ''*'', CHR ''+'', CHR ''?'', CHR ''{'', CHR ''}'',
                CHR ''['', CHR '']'', CHR ''('', CHR '')'', BACKSLASH]"

fun split_bar :: "point list \<Rightarrow> point list list" where
  "split_bar [] = [[]]"
| "split_bar (c # cs) =
     (if c = Latin CHR ''|'' then [] # split_bar cs
      else (case split_bar cs of [] \<Rightarrow> [[c]] | b # bs \<Rightarrow> (c # b) # bs))"

fun parse_branch :: "point list \<Rightarrow> atom list option" where
  "parse_branch [] = Some []"
| "parse_branch (Latin c # cs) =
     (if c = BACKSLASH then
        (case cs of
           [] \<Rightarrow> None
         | d # ds \<Rightarrow>
             if d = Latin CHR ''.'' then map_option ((#) (One (Is CHR ''.''))) (parse_branch ds)
             else None)
      else if c \<in> set metachars then None
      else map_option ((#) (One (if c = CHR ''.'' then Dot else Is c))) (parse_branch cs))"
| "parse_branch (c # cs) = map_option ((#) (One Far)) (parse_branch cs)"

definition parse :: "point list \<Rightarrow> regex option" where
  "parse pattern =
     (let bs = map parse_branch (split_bar pattern)
      in if None \<in> set bs \<or> Some [] \<in> set bs then None else Some (map the bs))"

text \<open>
  What \<^verbatim>\<open>re.sub\<close> does with a pattern outside the fragment is a parameter of the
  model: given the pattern text, the replacement and the text, either the new text or
  \<open>None\<close> when \<^verbatim>\<open>re.error\<close> is raised.
\<close>

type_synonym re_beyond = "point list \<Rightarrow> string \<Rightarrow> string \<Rightarrow> string option"

section \<open>The rewriting stages\<close>

subsection \<open>\<^verbatim>\<open>get_entity_name_from_file\<close>\<close>

definition get_entity_name_from_file :: "string \<Rightarrow> point list" where
  "get_entity_name_from_file filepath =
     (let basename = replace ''.test.ts'' [] (basename filepath)
      in capitalize basename)"

subsection \<open>\<^verbatim>\<open>fix_imports\<close>\<close>

definition old_axios_import :: string where
  "old_axios_import = ''import axios, { AxiosInstance, AxiosResponse } from 'axios';''"

definition axios_import :: string where
  "axios_import = ''import { AxiosInstance } from 'axios';''"

definition import_insertion :: string where
  "import_insertion =
     ''import {\<newline>  createEntityTestSetup,\<newline>  createMockItemResponse,\<newline>  createMockItemsResponse,\<newline>  createMockDeleteResponse,\<newline>  resetAllMocks,\<newline>  EntityTestSetup,\<newline>} from '../helpers/mockHelper';''"

definition axios_import_pattern :: regex where
  "axios_import_pattern = [lit axios_import]"

definition fix_imports :: "string \<Rightarrow> string" where
  "fix_imports content =
     (let content = re_sub [lit old_axios_import] (\<lambda>gs. axios_import) content;
          content = re_sub axios_import_pattern
                      (\<lambda>gs. capture 0 (length axios_import) gs @ [LF] @ import_insertion) content
      in content)"

subsection \<open>\<^verbatim>\<open>fix_describe_setup\<close>\<close>


subsection \<open>\<^verbatim>\<open>fix_method_calls\<close>\<close>

definition page_size_pattern :: regex where
  "page_size_pattern = [lit ''pageSize: '' @ [Plus Digit]]"

definition fix_method_calls :: "re_beyond \<Rightarrow> string \<Rightarrow> point list \<Rightarrow> string option" where
  "fix_method_calls beyond content entity_name =
     (let lower_entity = lower entity_name;
          pattern = map Latin ''await '' @ lower_entity @ [Latin BACKSLASH, Latin CHR ''.''];
          awaited = (case parse pattern of
                       Some p \<Rightarrow> Some (re_sub p (\<lambda>gs. ''await setup.entity.'') content)
                     | None \<Rightarrow> beyond pattern ''await setup.entity.'' content)
      in case awaited of
           None \<Rightarrow> None
         | Some content \<Rightarrow>
             (let content = re_sub [lit ''mockAxios.''] (\<lambda>gs. ''setup.mockAxios.'') content;
                  content = re_sub [lit ''expect(mockAxios.''] (\<lambda>gs. ''expect(setup.mockAxios.'') content;
                  content = re_sub page_size_pattern
                              (\<lambda>gs. ''MaxRecords: '' @ capture 10 11 gs) content
              in Some content))"

subsection \<open>\<^verbatim>\<open>fix_mock_responses\<close>\<close>

text \<open>
  The seven patterns share one shape: a mock call on a verb, \<^verbatim>\<open>({\<close>, white space, a
  fixed \<^verbatim>\<open>data:\<close> literal, then \<^verbatim>\<open>[^}]+\<close> and the closing \<^verbatim>\<open>});\<close>.
\<close>

definition response_pattern :: "string \<Rightarrow> string \<Rightarrow> regex" where
  "response_pattern verb data =
     [lit (''mockAxios.'' @ verb @ ''.mockResolvedValueOnce({'') @ [Star Space] @ lit data
        @ [Plus (Not (CHR ''}''))] @ lit ''});'']"

definition create_pattern :: regex where
  "create_pattern =
     [lit ''mockAxios.post.mockResolvedValueOnce({'' @ [Star Space]
        @ lit ''data: { item: mockResponse }'' @ [Plus (Not (CHR ''}''))] @ lit ''status: 201''
        @ [Plus (Not (CHR ''}''))] @ lit ''});'']"

definition fix_mock_responses :: "string \<Rightarrow> string" where
  "fix_mock_responses content =
     (let content = re_sub (response_pattern ''get'' ''data: { items: mockData }'')
            (\<lambda>gs. ''setup.mockAxios.post.mockResolvedValueOnce(\<newline>        createMockItemsResponse(mockData)\<newline>      );'')
            content;
          content = re_sub (response_pattern ''get'' ''data: { items: [] }'')
            (\<lambda>gs. ''setup.mockAxios.post.mockResolvedValueOnce(\<newline>        createMockItemsResponse([])\<newline>      );'')
            content;
          content = re_sub (response_pattern ''get'' ''data: { item: mockData }'')
            (\<lambda>gs. ''setup.mockAxios.get.mockResolvedValueOnce(\<newline>        createMockItemResponse(mockData)\<newline>      );'')
            content;
          content = re_sub create_pattern
            (\<lambda>gs. ''setup.mockAxios.post.mockResolvedValueOnce(\<newline>        createMockItemResponse(mockResponse, 201)\<newline>      );'')
            content;
          content = re_sub (response_pattern ''put'' ''data: { item: mockResponse }'')
            (\<lambda>gs. ''setup.mockAxios.put.mockResolvedValueOnce(\<newline>        createMockItemResponse(mockResponse)\<newline>      );'')
            content;
          content = re_sub (response_pattern ''patch'' ''data: { item: mockResponse }'')
            (\<lambda>gs. ''setup.mockAxios.patch.mockResolvedValueOnce(\<newline>        createMockItemResponse(mockResponse)\<newline>      );'')
            content;
          content = re_sub (response_pattern ''delete'' ''data: {}'')
            (\<lambda>gs. ''setup.mockAxios.delete.mockResolvedValueOnce(\<newline>        createMockDeleteResponse()\<newline>      );'')
            content
      in content)"

subsection \<open>\<^verbatim>\<open>fix_test_expectations\<close>\<close>

definition query_head :: string where
  "query_head = ''expect(setup.mockAxios.get).toHaveBeenCalledWith('' @ [QUOTE]"

definition query_pattern :: regex where
  "query_pattern =
     [lit query_head @ [Plus (Not QUOTE)] @ lit ''/query', {'' @ [Star Space]
        @ lit ''params: {'' @ [Star Space] @ lit ''filter:'']"

definition params_pattern :: regex where
  "params_pattern = [lit ''params: {'' @ [Star Space] @ lit ''filter:'']"

definition closing_pattern :: regex where
  "closing_pattern = [lit ''}'' @ [Star Space] @ lit ''});'']"

definition fix_test_expectations :: "string \<Rightarrow> string" where
  "fix_test_expectations content =
     (let content = re_sub query_pattern
            (\<lambda>gs. ''expect(setup.mockAxios.post).toHaveBeenCalledWith('' @ [QUOTE]
                   @ capture (length query_head) (Suc (length query_head)) gs
                   @ ''/query', {\<newline>        filter:'')
            content;
          content = re_sub params_pattern (\<lambda>gs. ''filter:'') content;
          content = re_sub closing_pattern (\<lambda>gs. ''});'') content
      in content)"

section \<open>Files, and what a run does to them\<close>

text \<open>
  A file has a text and the two permissions the script depends on. The world is the
  files by path, the names in the directory \<^verbatim>\<open>test/entities\<close> in the order the
  directory is enumerated, and the trace of what the script has done so far: the lines it
  printed and the files it opened.
\<close>

record source_file =
  body :: string
  readable :: bool
  writable :: bool

datatype error = FileNotFoundError | PermissionError | ReError

datatype message =
    Processing string
  | Skipping
  | Updated string
  | Found nat
  | ProcessedSoFar nat

datatype effect = Print message | OpenRead string | OpenWrite string

record world =
  files :: "string \<rightharpoonup> source_file"
  entries :: "string list"
  trace :: "effect list"

definition emit :: "effect list \<Rightarrow> world \<Rightarrow> world" where
  "emit es w = w\<lparr>trace := trace w @ es\<rparr>"

text \<open>
  Reading in text mode translates every line ending (\<^verbatim>\<open>\r\n\<close>, \<^verbatim>\<open>\r\<close>) to
  \<^verbatim>\<open>\n\<close>; writing on POSIX translates nothing.
\<close>

fun universal_newlines :: "string \<Rightarrow> string" where
  "universal_newlines [] = []"
| "universal_newlines [c] = (if c = CR then [LF] else [c])"
| "universal_newlines (c # d # cs) =
     (if c = CR then LF # universal_newlines (if d = LF then cs else d # cs)
      else c # universal_newlines (d # cs))"

definition read_text :: "world \<Rightarrow> string \<Rightarrow> error + string" where
  "read_text w path =
     (case files w path of
        None \<Rightarrow> Inl FileNotFoundError
      | Some f \<Rightarrow> if readable f then Inr (universal_newlines (body f)) else Inl PermissionError)"

definition write_text :: "world \<Rightarrow> string \<Rightarrow> string \<Rightarrow> error + world" where
  "write_text w path s =
     (case files w path of
        None \<Rightarrow> Inr (w\<lparr>files := (files w)(path \<mapsto> \<lparr>body = s, readable = True, writable = True\<rparr>)\<rparr>)
      | Some f \<Rightarrow>
          if writable f then Inr (w\<lparr>files := (files w)(path \<mapsto> f\<lparr>body := s\<rparr>)\<rparr>)
          else Inl PermissionError)"

subsection \<open>\<^verbatim>\<open>process_file\<close>\<close>

definition marker :: string where
  "marker = ''createEntityTestSetup''"

text \<open>The four stages, in the order \<^verbatim>\<open>process_file\<close> applies them.\<close>

definition apply_fixes :: "re_beyond \<Rightarrow> point list \<Rightarrow> string \<Rightarrow> string option" where
  "apply_fixes beyond entity_class content =
     (let content = fix_imports content
      in case fix_method_calls beyond content entity_class of
           None \<Rightarrow> None
         | Some content \<Rightarrow>
             (let content = fix_mock_responses content;
                  content = fix_test_expectations content
              in Some content))"

definition process_file :: "re_beyond \<Rightarrow> string \<Rightarrow> world \<Rightarrow> (error + unit) \<times> world" where
  "process_file beyond filepath w =
     (let w = emit [Print (Processing filepath), OpenRead filepath] w
      in case read_text w filepath of
           Inl e \<Rightarrow> (Inl e, w)
         | Inr content \<Rightarrow>
             if contains marker content then (Inr (), emit [Print Skipping] w)
             else
               (let entity_class = get_entity_name_from_file filepath
                in case apply_fixes beyond entity_class content of
                     None \<Rightarrow> (Inl ReError, w)
                   | Some content \<Rightarrow>
                       (let w = emit [OpenWrite filepath] w
                        in case write_text w filepath content of
                             Inl e \<Rightarrow> (Inl e, w)
                           | Inr w \<Rightarrow> (Inr (), emit [Print (Updated filepath)] w))))"

subsection \<open>\<^verbatim>\<open>main\<close>\<close>

definition test_dir :: string where
  "test_dir = ''test/entities''"

definition fixed_files :: "string list" where
  "fixed_files =
     [''actiontypes.test.ts'', ''pricelistservices.test.ts'', ''ticketcharges.test.ts'',
      ''timeoffrequests.test.ts'', ''companies.test.ts'', ''quotes.test.ts'']"

text \<open>\<^verbatim>\<open>test_dir.glob('*.test.ts')\<close>: the names of the directory that end in the suffix.\<close>

definition glob :: "world \<Rightarrow> string list" where
  "glob w = filter (suffix ''.test.ts'') (entries w)"

text \<open>\<^verbatim>\<open>str(test_dir / name)\<close>.\<close>

definition path_of :: "string \<Rightarrow> string" where
  "path_of name = test_dir @ ''/'' @ name"

text \<open>The loop over the files; an exception ends it.\<close>

fun process_all :: "re_beyond \<Rightarrow> nat \<Rightarrow> string list \<Rightarrow> world \<Rightarrow> (error + unit) \<times> world" where
  "process_all beyond i [] w = (Inr (), w)"
| "process_all beyond i (test_file # rest) w =
     (case process_file beyond (path_of test_file) w of
        (Inl e, w) \<Rightarrow> (Inl e, w)
      | (Inr u, w) \<Rightarrow>
          process_all beyond (i + 1) rest
            (if (i + 1) mod 5 = 0 then emit [Print (ProcessedSoFar (i + 1))] w else w))"

definition main :: "re_beyond \<Rightarrow> world \<Rightarrow> (error + unit) \<times> world" where
  "main beyond w =
     (let test_files = filter (\<lambda>f. f \<notin> set fixed_files) (glob w);
          w = emit [Print (Found (length test_files))] w
      in process_all beyond 0 (take 5 test_files) w)"

section \<open>Notions used in the proofs\<close>

text \<open>\<open>headed p\<close>: the alternative begins with one character, so it matches no empty text.\<close>

fun headed :: "atom list \<Rightarrow> bool" where
  "headed (One c # as) = True"
| "headed p = False"

fun nowhere :: "regex \<Rightarrow> string \<Rightarrow> bool" where
  "nowhere p [] = (first_match p [] = None)"
| "nowhere p (x # xs) = (first_match p (x # xs) = None \<and> nowhere p xs)"

fun resid :: "atom list \<Rightarrow> atom list list" where
  "resid [] = [[]]"
| "resid (One c # as) = (One c # as) # resid as"
| "resid (Star c # as) = (Star c # as) # resid as"
| "resid (Plus c # as) = (Plus c # as) # (Star c # as) # resid as"

definition halt :: "atom list \<Rightarrow> string \<Rightarrow> bool" where
  "halt q w \<longleftrightarrow> rmatch q w = map_option (\<lambda>(gs, r). (gs, r @ w)) (rmatch q [])"

text \<open>\<open>dead p k\<close>: the pattern matches no text that begins with \<open>k\<close>, decided inside \<open>k\<close>.\<close>

fun dead :: "atom list \<Rightarrow> string \<Rightarrow> bool" where
  "dead [] k = False"
| "dead (One c # as) [] = False"
| "dead (One c # as) (x # xs) = (\<not> mem c x \<or> dead as xs)"
| "dead (Plus c # as) [] = False"
| "dead (Plus c # as) (x # xs) = (\<not> mem c x \<or> dead (Star c # as) xs)"
| "dead (Star c # as) [] = False"
| "dead (Star c # as) (x # xs) = ((\<not> mem c x \<or> dead (Star c # as) xs) \<and> dead as (x # xs))"

text \<open>\<open>quiet q k\<close>: only repetitions are left, and none of them takes the first character of \<open>k\<close>.\<close>

fun quiet :: "atom list \<Rightarrow> string \<Rightarrow> bool" where
  "quiet [] k = True"
| "quiet (Star c # as) (x # xs) = (\<not> mem c x \<and> quiet as (x # xs))"
| "quiet q k = False"

definition halts :: "string \<Rightarrow> atom list \<Rightarrow> bool" where
  "halts k q \<longleftrightarrow> dead q k \<or> quiet q k"

definition no_crossing :: "atom list \<Rightarrow> string \<Rightarrow> bool" where
  "no_crossing as k \<longleftrightarrow> list_all (halts k) (resid as)"

text \<open>\<open>clear p k\<close>: no match begins inside \<open>k\<close>.\<close>

fun clear :: "atom list \<Rightarrow> string \<Rightarrow> bool" where
  "clear p [] = True"
| "clear p (x # xs) = (dead p (x # xs) \<and> clear p xs)"

text \<open>A block of text that no match can touch goes through a substitution as it is.\<close>

definition untouched :: "atom list \<Rightarrow> string \<Rightarrow> bool" where
  "untouched p k \<longleftrightarrow> (case p of One c # as \<Rightarrow> no_crossing as k \<and> clear p k | _ \<Rightarrow> False)"

definition guard_block :: string where
  "guard_block = ''{\<newline>  createEntityTestSetup,\<newline>  createMockItemResponse,\<newline>  createMockItemsResponse,\<newline>  createMockDeleteResponse,\<newline>  resetAllMocks,\<newline>  EntityTestSetup,\<newline>} from '' @ [QUOTE]"

text \<open>
  An entity name without a character special to regular expressions, and the atoms of
  the literal it stands for in a pattern.
\<close>

definition literal_text :: "point list \<Rightarrow> bool" where
  "literal_text s =
     list_all (\<lambda>p. case p of
                      Latin c \<Rightarrow> c \<notin> set metachars \<and> c \<noteq> CHR ''|'' \<and> c \<noteq> CHR ''.''
                    | _ \<Rightarrow> True) s"

definition name_atoms :: "point list \<Rightarrow> atom list" where
  "name_atoms s = map (\<lambda>p. case p of Latin c \<Rightarrow> One (Is c) | _ \<Rightarrow> One Far) s"

text \<open>The patterns that do not depend on the file name, in the order of the stages.\<close>

definition fixed_patterns :: "regex list" where
  "fixed_patterns =
     [[lit old_axios_import], axios_import_pattern,
      [lit ''mockAxios.''], [lit ''expect(mockAxios.''], page_size_pattern,
      response_pattern ''get'' ''data: { items: mockData }'',
      response_pattern ''get'' ''data: { items: [] }'',
      response_pattern ''get'' ''data: { item: mockData }'',
      create_pattern,
      response_pattern ''put'' ''data: { item: mockResponse }'',
      response_pattern ''patch'' ''data: { item: mockResponse }'',
      response_pattern ''delete'' ''data: {}'',
      query_pattern, params_pattern, closing_pattern]"

text \<open>The assertion of the example in its old and new form, and the replacement of the first step.\<close>

definition old_assertion :: string where
  "old_assertion = ''expect(setup.mockAxios.get).toHaveBeenCalledWith('/widgets/query', { params: { filter:''"

definition new_assertion :: string where
  "new_assertion = ''expect(setup.mockAxios.post).toHaveBeenCalledWith('/widgets/query', {\<newline>        filter:''"

definition old_closer :: string where
  "old_closer = '' } });''"

definition query_repl :: "string list \<Rightarrow> string" where
  "query_repl gs = ''expect(setup.mockAxios.post).toHaveBeenCalledWith('' @ [QUOTE]
                   @ capture (length query_head) (Suc (length query_head)) gs
                   @ ''/query', {\<newline>        filter:''"

text \<open>
  Concrete inputs for the examples: a \<^verbatim>\<open>re\<close> that rejects every pattern outside the
  fragment, and a world whose directory holds the given readable and writable files.
\<close>

definition no_beyond :: re_beyond where
  "no_beyond pattern repl s = None"

definition example_world :: "(string \<times> string) list \<Rightarrow> world" where
  "example_world fs =
     \<lparr>files = map_of (map (\<lambda>(name, s). (path_of name, \<lparr>body = s, readable = True, writable = True\<rparr>)) fs),
      entries = map fst fs,
      trace = []\<rparr>"

section \<open>Lemmas\<close>


lemma contains_iff: "contains m s \<longleftrightarrow> (\<exists>a b. s = a @ m @ b)"
proof (induction s)
  case Nil
  then show ?case by auto
next
  case (Cons x xs)
  show ?case
  proof
    assume "contains m (x # xs)"
    then consider "prefix m (x # xs)" | "contains m xs" by auto
    then show "\<exists>a b. x # xs = a @ m @ b"
    proof cases
      case 1
      then obtain b where "x # xs = m @ b" by (auto simp: prefix_def)
      then have "x # xs = [] @ m @ b" by simp
      then show ?thesis by blast
    next
      case 2
      then obtain a b where "xs = a @ m @ b" using Cons.IH by blast
      then have "x # xs = (x # a) @ m @ b" by simp
      then show ?thesis by blast
    qed
  next
    assume "\<exists>a b. x # xs = a @ m @ b"
    then obtain a b where ab: "x # xs = a @ m @ b" by blast
    show "contains m (x # xs)"
    proof (cases a)
      case Nil
      then have "prefix m (x # xs)" using ab by (simp add: prefix_def)
      then show ?thesis by simp
    next
      case (Cons y ys)
      then have "xs = ys @ m @ b" using ab by simp
      then have "contains m xs" using Cons.IH by blast
      then show ?thesis by simp
    qed
  qed
qed

lemma prefix_universal_newlines:
  "CR \<notin> set m \<Longrightarrow> prefix m s \<Longrightarrow> prefix m (universal_newlines s)"
proof (induction s arbitrary: m rule: universal_newlines.induct)
  case 1
  then show ?case by simp
next
  case (2 c)
  then show ?case by (cases m) (auto simp: prefix_Cons)
next
  case (3 c d cs)
  show ?case
  proof (cases m)
    case Nil
    then show ?thesis by simp
  next
    case (Cons y ys)
    with 3 show ?thesis by (auto simp: prefix_Cons)
  qed
qed

lemma contains_universal_newlines:
  "CR \<notin> set m \<Longrightarrow> LF \<notin> set m \<Longrightarrow> m \<noteq> [] \<Longrightarrow> contains m s \<Longrightarrow> contains m (universal_newlines s)"
proof (induction s rule: universal_newlines.induct)
  case 1
  then show ?case by simp
next
  case (2 c)
  then show ?case by (cases m) (auto simp: prefix_Cons)
next
  case (3 c d cs)
  from "3.prems" consider "prefix m (c # d # cs)" | "contains m (d # cs)" by auto
  then show ?case
  proof cases
    case 1
    then have "prefix m (universal_newlines (c # d # cs))"
      using "3.prems"(1) prefix_universal_newlines by blast
    then show ?thesis by (cases "universal_newlines (c # d # cs)") (use "3.prems" in auto)
  next
    case 2
    show ?thesis
    proof (cases "c = CR")
      case True
      show ?thesis
      proof (cases "d = LF")
        case dl: True
        have "\<not> prefix m (d # cs)" using dl "3.prems" by (cases m) auto
        then have "contains m cs" using 2 by simp
        then show ?thesis using 3 True dl by simp
      next
        case False
        then show ?thesis using 3 True 2 by simp
      qed
    next
      case False
      then show ?thesis using 3 2 by simp
    qed
  qed
qed


lemma read_text_emit [simp]: "read_text (emit es w) p = read_text w p"
  by (simp add: read_text_def emit_def)

lemma files_emit [simp]: "files (emit es w) = files w"
  by (simp add: emit_def)

lemma trace_emit [simp]: "trace (emit es w) = trace w @ es"
  by (simp add: emit_def)

lemma entries_emit [simp]: "entries (emit es w) = entries w"
  by (simp add: emit_def)

lemma emit_emit [simp]: "emit es (emit ds w) = emit (ds @ es) w"
  by (simp add: emit_def)

lemma write_text_files:
  "write_text w p s = Inr w' \<Longrightarrow> q \<noteq> p \<Longrightarrow> files w' q = files w q"
  by (auto simp: write_text_def split: option.splits if_splits)

lemma write_text_trace:
  "write_text w p s = Inr w' \<Longrightarrow> trace w' = trace w"
  by (auto simp: write_text_def split: option.splits if_splits)

text \<open>A run of \<open>process_file\<close> touches no other file, and opens no other file.\<close>

lemma process_file_other:
  "q \<noteq> p \<Longrightarrow> files (snd (process_file beyond p w)) q = files w q"
  by (auto simp: process_file_def Let_def dest: write_text_files split: sum.splits option.splits)

lemma process_file_trace:
  "\<exists>es. trace (snd (process_file beyond p w)) = trace w @ es \<and> (\<forall>q. q \<noteq> p \<longrightarrow> OpenWrite q \<notin> set es)"
  by (auto simp: process_file_def Let_def dest: write_text_trace split: sum.splits option.splits)

lemma process_all_other:
  "path_of name \<notin> path_of ` set xs \<Longrightarrow> files (snd (process_all beyond i xs w)) (path_of name) = files w (path_of name)"
proof (induction xs arbitrary: i w)
  case Nil
  then show ?case by simp
next
  case (Cons x xs)
  have ne: "path_of name \<noteq> path_of x" using Cons.prems by auto
  obtain r w' where pf: "process_file beyond (path_of x) w = (r, w')" by (cases "process_file beyond (path_of x) w")
  have fw: "files w' (path_of name) = files w (path_of name)"
    using process_file_other[OF ne, of beyond w] pf by simp
  show ?case
  proof (cases r)
    case (Inl e)
    then show ?thesis using pf fw by simp
  next
    case (Inr u)
    have "path_of name \<notin> path_of ` set xs" using Cons.prems by auto
    from Cons.IH[OF this] show ?thesis using pf fw Inr by simp
  qed
qed

lemma process_all_trace:
  "path_of name \<notin> path_of ` set xs \<Longrightarrow>
   \<exists>es. trace (snd (process_all beyond i xs w)) = trace w @ es \<and> OpenWrite (path_of name) \<notin> set es"
proof (induction xs arbitrary: i w)
  case Nil
  then show ?case by simp
next
  case (Cons x xs)
  have ne: "path_of name \<noteq> path_of x" using Cons.prems by auto
  obtain r w' where pf: "process_file beyond (path_of x) w = (r, w')" by (cases "process_file beyond (path_of x) w")
  obtain es where es: "trace w' = trace w @ es" "OpenWrite (path_of name) \<notin> set es"
    using process_file_trace[of beyond "path_of x" w] pf ne by auto
  show ?case
  proof (cases r)
    case (Inl e)
    then show ?thesis using pf es by simp
  next
    case (Inr u)
    have nin: "path_of name \<notin> path_of ` set xs" using Cons.prems by auto
    let ?w = "if (i + 1) mod 5 = 0 then emit [Print (ProcessedSoFar (i + 1))] w' else w'"
    obtain ds where ds: "trace (snd (process_all beyond (i + 1) xs ?w)) = trace ?w @ ds" "OpenWrite (path_of name) \<notin> set ds"
      using Cons.IH[OF nin] by blast
    obtain cs where cs: "trace ?w = trace w' @ cs" "OpenWrite (path_of name) \<notin> set cs"
      by (cases "(i + 1) mod 5 = 0") auto
    have "trace (snd (process_all beyond i (x # xs) w)) = trace w @ (es @ cs @ ds)"
      using pf Inr ds cs es by simp
    moreover have "OpenWrite (path_of name) \<notin> set (es @ cs @ ds)" using es cs ds by simp
    ultimately show ?thesis by blast
  qed
qed

lemma path_of_inj: "path_of a = path_of b \<Longrightarrow> a = b"
  by (simp add: path_of_def)



lemma marker_chars: "CR \<notin> set marker" "LF \<notin> set marker" "marker \<noteq> []"
  by (simp_all add: marker_def CR_def LF_def)

lemma process_file_read_fails:
  "read_text w p = Inl e \<Longrightarrow>
   process_file beyond p w = (Inl e, emit [Print (Processing p), OpenRead p] w)"
  by (simp add: process_file_def Let_def)

lemma process_all_append:
  "process_all beyond i (xs @ ys) w =
     (case process_all beyond i xs w of
        (Inl e, w') \<Rightarrow> (Inl e, w')
      | (Inr u, w') \<Rightarrow> process_all beyond (i + length xs) ys w')"
proof (induction xs arbitrary: i w)
  case Nil
  then show ?case by simp
next
  case (Cons x xs)
  show ?case
    by (simp add: Cons.IH split: prod.splits sum.splits)
qed

lemma basename_no_slash: "CHR ''/'' \<notin> set s \<Longrightarrow> basename s = s"
  by (cases s) auto

lemma basename_append: "CHR ''/'' \<notin> set b \<Longrightarrow> basename (d @ CHR ''/'' # b) = b"
  by (induction d) (auto simp: basename_no_slash)

lemma prefix_first_chars:
  "a \<noteq> [] \<Longrightarrow> prefix old (a @ old) \<Longrightarrow> prefix old (a @ butlast old)"
proof -
  assume a: "a \<noteq> []" and p: "prefix old (a @ old)"
  have "length old \<le> length (a @ butlast old)" using a by (cases a) auto
  moreover have "prefix (a @ butlast old) (a @ old)" by (simp add: prefixeq_butlast)
  ultimately show ?thesis using p
    by (metis prefix_length_prefix)
qed

lemma contains_appendI: "contains m s \<Longrightarrow> contains m (a @ s)"
  by (induction a) auto

lemma replace_scan_suffix:
  "old \<noteq> [] \<Longrightarrow> \<not> contains old (b @ butlast old) \<Longrightarrow> replace_scan old new (b @ old) = b @ new"
proof (induction b)
  case Nil
  then show ?case by (cases old) auto
next
  case (Cons x b)
  have np: "\<not> prefix old ((x # b) @ old)"
    using Cons.prems prefix_first_chars[of "x # b" old] by auto
  have "\<not> contains old (b @ butlast old)" using Cons.prems by auto
  then show ?case using Cons np by simp
qed



subsection \<open>Facts about the matcher\<close>

lemma grow_concat: "concat (fst (grow x m)) @ snd (grow x m) = x # concat (fst m) @ snd m"
proof -
  obtain gs r where m: "m = (gs, r)" by (cases m)
  show ?thesis unfolding m by (cases gs) auto
qed

lemma rmatch_concat: "rmatch p s = Some (gs, r) \<Longrightarrow> s = concat gs @ r"
proof (induction p s arbitrary: gs r rule: rmatch.induct)
  case (1 s)
  then show ?case by simp
next
  case (2 c as)
  then show ?case by simp
next
  case (3 c as x xs)
  then show ?case by (auto split: if_splits option.splits)
next
  case (4 c as)
  then show ?case by simp
next
  case (5 c as x xs)
  from "5.prems" obtain m where m: "mem c x" "rmatch (Star c # as) xs = Some m" "(gs, r) = grow x m"
    by (auto split: if_splits)
  obtain hs q where hq: "m = (hs, q)" by (cases m)
  have "xs = concat hs @ q" using 5 m hq by simp
  then show ?case using grow_concat[of x m] m(3) hq by (metis fst_conv snd_conv)
next
  case (6 c as)
  then show ?case by (auto split: option.splits)
next
  case (7 c as x xs)
  show ?case
  proof (cases "if mem c x then rmatch (Star c # as) xs else None")
    case None
    then show ?thesis using 7 by (auto split: option.splits)
  next
    case (Some m)
    then have mm: "mem c x" "rmatch (Star c # as) xs = Some m" by (auto split: if_splits)
    obtain hs q where hq: "m = (hs, q)" by (cases m)
    have g: "(gs, r) = grow x m" using "7.prems" Some by simp
    have "xs = concat hs @ q" using "7.IH"(1)[OF mm(1)] mm hq by simp
    then show ?thesis using grow_concat[of x m] g hq by (metis fst_conv snd_conv)
  qed
qed

lemma rmatch_One_shorter:
  "rmatch (One c # as) s = Some (gs, r) \<Longrightarrow> length r < length s"
proof (cases s)
  case Nil
  assume "rmatch (One c # as) s = Some (gs, r)"
  then show ?thesis using Nil by simp
next
  case (Cons x xs)
  assume a: "rmatch (One c # as) s = Some (gs, r)"
  then obtain hs where "rmatch as xs = Some (hs, r)"
    using Cons by (auto split: if_splits option.splits)
  then have "xs = concat hs @ r" by (rule rmatch_concat)
  then have "length r \<le> length xs" by (metis length_append le_add2)
  then show ?thesis using Cons by simp
qed

text \<open>For a pattern of one alternative that begins with a character, the scan reads:\<close>

lemma re_sub_Cons:
  "re_sub [One c # as] f (x # xs) =
     (case rmatch (One c # as) (x # xs) of
        None \<Rightarrow> x # re_sub [One c # as] f xs
      | Some (gs, r) \<Rightarrow> f gs @ re_sub [One c # as] f r)"
proof (cases "rmatch (One c # as) (x # xs)")
  case None
  then show ?thesis by simp
next
  case (Some m)
  obtain gs r where m: "m = (gs, r)" by (cases m)
  have "length r < Suc (length xs)" using rmatch_One_shorter[of c as "x # xs" gs r] Some m by simp
  then show ?thesis using Some m by simp
qed

subsection \<open>A pattern that matches nowhere\<close>

lemma re_sub_nowhere: "nowhere p s \<Longrightarrow> re_sub p f s = s"
  by (induction s) auto

subsection \<open>Cutting the text where no match can cross\<close>

lemma resid_self: "q \<in> set (resid q)"
  by (cases q rule: resid.cases) auto

lemma grow_app: "grow x (case m of (gs, r) \<Rightarrow> (gs, r @ w)) = (case grow x m of (gs, r) \<Rightarrow> (gs, r @ w))"
proof -
  obtain gs r where m: "m = (gs, r)" by (cases m)
  show ?thesis unfolding m by (cases gs) auto
qed

lemma rmatch_append:
  "\<forall>q \<in> set (resid p). halt q w \<Longrightarrow>
   rmatch p (u @ w) = map_option (\<lambda>(gs, r). (gs, r @ w)) (rmatch p u)"
proof (induction p u rule: rmatch.induct)
  case (1 s)
  then show ?case by simp
next
  case (2 c as)
  then show ?case using resid_self[of "One c # as"] by (simp add: halt_def)
next
  case (3 c as x xs)
  then show ?case by (auto split: option.splits)
next
  case (4 c as)
  then show ?case by (simp add: halt_def)
next
  case (5 c as x xs)
  show ?case
  proof (cases "mem c x")
    case True
    have "rmatch (Star c # as) (xs @ w) = map_option (\<lambda>(gs, r). (gs, r @ w)) (rmatch (Star c # as) xs)"
      using 5 True by simp
    then show ?thesis using True by (cases "rmatch (Star c # as) xs") (auto simp: grow_app)
  next
    case False
    then show ?thesis by simp
  qed
next
  case (6 c as)
  then show ?case by (simp add: halt_def)
next
  case (7 c as x xs)
  have hs: "\<forall>q \<in> set (resid (Star c # as)). halt q w" "\<forall>q \<in> set (resid as). halt q w"
    using "7.prems" by simp_all
  show ?case
  proof (cases "mem c x")
    case True
    have st: "rmatch (Star c # as) (xs @ w) = map_option (\<lambda>(gs, r). (gs, r @ w)) (rmatch (Star c # as) xs)"
      using "7.IH"(1)[OF True hs(1)] .
    show ?thesis
    proof (cases "rmatch (Star c # as) xs")
      case None
      then have "(if mem c x then rmatch (Star c # as) xs else None) = None" by simp
      from "7.IH"(2)[OF this hs(2)]
      have as: "rmatch as ((x # xs) @ w) = map_option (\<lambda>(gs, r). (gs, r @ w)) (rmatch as (x # xs))" .
      then show ?thesis using True st None by (cases "rmatch as (x # xs)") auto
    next
      case (Some m)
      then show ?thesis using True st by (auto simp: grow_app)
    qed
  next
    case False
    then have "(if mem c x then rmatch (Star c # as) xs else None) = None" by simp
    from "7.IH"(2)[OF this hs(2)]
    have as: "rmatch as ((x # xs) @ w) = map_option (\<lambda>(gs, r). (gs, r @ w)) (rmatch as (x # xs))" .
    then show ?thesis using False by (cases "rmatch as (x # xs)") auto
  qed
qed

lemma re_sub_append:
  assumes "\<forall>q \<in> set (resid as). halt q w"
  shows "re_sub [One c # as] f (u @ w) = re_sub [One c # as] f u @ re_sub [One c # as] f w"
proof (induction u rule: length_induct)
  case (1 u)
  show ?case
  proof (cases u)
    case Nil
    then show ?thesis by simp
  next
    case (Cons x xs)
    have tl: "rmatch as (xs @ w) = map_option (\<lambda>(gs, r). (gs, r @ w)) (rmatch as xs)"
      using assms by (rule rmatch_append)
    show ?thesis
    proof (cases "rmatch (One c # as) (x # xs)")
      case None
      then have "rmatch (One c # as) (x # xs @ w) = None"
        using tl by (auto split: if_splits option.splits)
      moreover have "re_sub [One c # as] f (xs @ w) = re_sub [One c # as] f xs @ re_sub [One c # as] f w"
        using 1 Cons by simp
      ultimately show ?thesis using None Cons by (simp add: re_sub_Cons del: re_sub.simps rmatch.simps)
    next
      case (Some m)
      obtain gs r where m: "m = (gs, r)" by (cases m)
      have "rmatch (One c # as) (x # xs @ w) = Some (gs, r @ w)"
        using tl Some m by (auto split: if_splits option.splits)
      moreover have "length r < length u"
        using rmatch_One_shorter[of c as "x # xs" gs r] Some m Cons by simp
      then have "re_sub [One c # as] f (r @ w) = re_sub [One c # as] f r @ re_sub [One c # as] f w"
        using 1 by simp
      ultimately show ?thesis using Some m Cons by (simp add: re_sub_Cons del: re_sub.simps rmatch.simps)
    qed
  qed
qed


lemma dead_rmatch: "dead p k \<Longrightarrow> rmatch p (k @ v) = None"
  by (induction p k rule: dead.induct) auto

lemma dead_Nil: "dead p k \<Longrightarrow> rmatch p [] = None"
  by (induction p k rule: dead.induct) auto

lemma dead_halt: "dead q k \<Longrightarrow> halt q (k @ v)"
  by (simp add: halt_def dead_rmatch dead_Nil)

lemma dead_append: "dead p k \<Longrightarrow> dead (p @ q) k"
  by (induction p k rule: dead.induct) auto

lemma quiet_rmatch:
  "quiet q k \<Longrightarrow> \<exists>gs. rmatch q [] = Some (gs, []) \<and> rmatch q (k @ v) = Some (gs, k @ v)"
  by (induction q k rule: quiet.induct) auto

lemma quiet_halt: "quiet q k \<Longrightarrow> halt q (k @ v)"
  using quiet_rmatch[of q k v] by (auto simp: halt_def)

lemma no_crossing_halt: "no_crossing as k \<Longrightarrow> \<forall>q \<in> set (resid as). halt q (k @ v)"
  by (auto simp: no_crossing_def halts_def list_all_iff dead_halt quiet_halt)

lemma clear_append: "clear p k \<Longrightarrow> clear (p @ q) k"
  by (induction k) (auto simp: dead_append)

lemma re_sub_clear: "clear p k \<Longrightarrow> re_sub [p] f (k @ v) = k @ re_sub [p] f v"
proof (induction k)
  case Nil
  then show ?case by simp
next
  case (Cons x xs)
  then have "rmatch p (x # xs @ v) = None" using dead_rmatch[of p "x # xs" v] by simp
  then show ?case using Cons by simp
qed

lemma re_sub_untouched:
  assumes "untouched p k"
  shows "re_sub [p] f (u @ k @ v) = re_sub [p] f u @ k @ re_sub [p] f v"
proof -
  from assms obtain c as where p: "p = One c # as" and nc: "no_crossing as k" and cl: "clear p k"
    by (auto simp: untouched_def split: list.splits atom.splits)
  have "re_sub [p] f (u @ k @ v) = re_sub [p] f u @ re_sub [p] f (k @ v)"
    unfolding p using no_crossing_halt[OF nc] by (rule re_sub_append)
  then show ?thesis using re_sub_clear[OF cl] by simp
qed

lemma contains_untouched:
  assumes "untouched p k" and "contains k s"
  shows "contains k (re_sub [p] f s)"
proof -
  from assms(2) obtain u v where "s = u @ k @ v" by (auto simp: contains_iff)
  then have "re_sub [p] f s = re_sub [p] f u @ k @ re_sub [p] f v"
    using re_sub_untouched[OF assms(1)] by simp
  then show ?thesis by (auto simp: contains_iff)
qed

lemma import_insertion_block: "import_insertion = ''import '' @ guard_block @ ''../helpers/mockHelper';''"
  by (simp add: import_insertion_def guard_block_def QUOTE_def)

lemma guard_block_marker: "guard_block = ''{\<newline>  '' @ marker @ drop 25 guard_block"
  by (simp add: guard_block_def marker_def)



lemma lit_Nil [simp]: "lit [] = []"
  by (simp add: lit_def)

lemma lit_Cons: "lit (c # cs) = One (Is c) # lit cs"
  by (simp add: lit_def)

lemma lit_append: "lit (a @ b) = lit a @ lit b"
  by (simp add: lit_def)

lemma rmatch_lit:
  "rmatch (lit l) s = (if prefix l s then Some (map (\<lambda>c. [c]) l, drop (length l) s) else None)"
proof (induction l arbitrary: s)
  case Nil
  then show ?case by simp
next
  case (Cons c l)
  show ?case by (cases s) (auto simp: lit_Cons Cons)
qed

lemma capture_lit: "capture 0 (length l) (map (\<lambda>c. [c]) l) = l"
  by (induction l) (auto simp: capture_def)

lemma contains_trans: "contains a b \<Longrightarrow> contains b s \<Longrightarrow> contains a s"
proof -
  assume "contains a b" "contains b s"
  then obtain p q u v where "b = p @ a @ q" "s = u @ b @ v" by (auto simp: contains_iff)
  then have "s = (u @ p) @ a @ (q @ v)" by simp
  then show ?thesis unfolding contains_iff by blast
qed

lemma contains_prefixI: "contains k (k @ v)"
  unfolding contains_iff by (metis append_Nil)

lemma contains_midI: "contains k (u @ k @ v)"
  unfolding contains_iff by blast

lemma re_sub_lit_Cons:
  assumes "l \<noteq> []"
  shows "re_sub [lit l] f (x # xs) =
     (if prefix l (x # xs) then f (map (\<lambda>c. [c]) l) @ re_sub [lit l] f (drop (length l) (x # xs))
      else x # re_sub [lit l] f xs)"
proof -
  obtain c l' where l: "l = c # l'" using assms by (cases l) auto
  have "re_sub [lit l] f (x # xs) =
     (case rmatch (lit l) (x # xs) of
        None \<Rightarrow> x # re_sub [lit l] f xs
      | Some (gs, r) \<Rightarrow> f gs @ re_sub [lit l] f r)"
    unfolding l lit_Cons by (rule re_sub_Cons)
  then show ?thesis unfolding rmatch_lit by simp
qed

lemma re_sub_lit_hits:
  assumes "l \<noteq> []"
  shows "contains l s \<Longrightarrow> contains (f (map (\<lambda>c. [c]) l)) (re_sub [lit l] f s)"
proof (induction s)
  case Nil
  then show ?case using assms by simp
next
  case (Cons x xs)
  show ?case
  proof (cases "prefix l (x # xs)")
    case True
    then show ?thesis unfolding re_sub_lit_Cons[OF assms] by (simp add: contains_prefixI)
  next
    case False
    then have "contains l xs" using Cons.prems by simp
    then have ih: "contains (f (map (\<lambda>c. [c]) l)) (re_sub [lit l] f xs)" by (rule Cons.IH)
    then show ?thesis unfolding re_sub_lit_Cons[OF assms] using False by simp
  qed
qed

lemma split_bar_none: "Latin CHR ''|'' \<notin> set s \<Longrightarrow> split_bar s = [s]"
  by (induction s) auto

lemma parse_branch_literal:
  "literal_text s \<Longrightarrow> parse_branch (s @ [Latin BACKSLASH, Latin CHR ''.'']) = Some (name_atoms s @ lit ''.'')"
proof (induction s)
  case Nil
  then show ?case by (simp add: lit_def name_atoms_def)
next
  case (Cons p s)
  then have ih: "parse_branch (s @ [Latin BACKSLASH, Latin CHR ''.'']) = Some (name_atoms s @ lit ''.'')"
    by (simp add: literal_text_def)
  show ?case
  proof (cases p)
    case (Latin c)
    then have c: "c \<notin> set metachars" "c \<noteq> CHR ''.''"
      using Cons.prems by (simp_all add: literal_text_def)
    then have "c \<noteq> BACKSLASH" by (auto simp: metachars_def)
    then show ?thesis using c ih Latin by (simp add: name_atoms_def)
  qed (use ih in \<open>simp_all add: name_atoms_def\<close>)
qed

lemma literal_text_await: "literal_text s \<Longrightarrow> literal_text (map Latin ''await '' @ s)"
  by (simp add: literal_text_def metachars_def BACKSLASH_def)

lemma name_atoms_await: "name_atoms (map Latin ''await '' @ s) = lit ''await '' @ name_atoms s"
  by (simp add: name_atoms_def lit_def)

lemma parse_literal:
  assumes "literal_text s"
  shows "parse (map Latin ''await '' @ s @ [Latin BACKSLASH, Latin CHR ''.''])
           = Some [lit ''await '' @ name_atoms s @ lit ''.'']"
proof -
  have "parse_branch ((map Latin ''await '' @ s) @ [Latin BACKSLASH, Latin CHR ''.''])
      = Some (name_atoms (map Latin ''await '' @ s) @ lit ''.'')"
    using literal_text_await[OF assms] by (rule parse_branch_literal)
  then have pb: "parse_branch (map Latin ''await '' @ s @ [Latin BACKSLASH, Latin CHR ''.''])
      = Some (lit ''await '' @ name_atoms s @ lit ''.'')"
    unfolding name_atoms_await by simp
  have "Latin CHR ''|'' \<notin> set (map Latin ''await '' @ s @ [Latin BACKSLASH, Latin CHR ''.''])"
    using assms by (auto simp: literal_text_def list_all_iff BACKSLASH_def)
  then have sb: "split_bar (map Latin ''await '' @ s @ [Latin BACKSLASH, Latin CHR ''.''])
      = [map Latin ''await '' @ s @ [Latin BACKSLASH, Latin CHR ''.'']]"
    by (rule split_bar_none)
  have ne: "lit ''await '' @ name_atoms s @ lit ''.'' \<noteq> []" by (simp add: lit_def)
  show ?thesis unfolding parse_def sb Let_def using pb ne by (simp del: parse_branch.simps)
qed

lemma no_crossing_ones:
  "\<forall>a \<in> set as. \<exists>c. a = One c \<and> \<not> mem c x \<Longrightarrow> no_crossing as (x # xs)"
  by (induction as) (auto simp: no_crossing_def halts_def)

lemma name_atoms_miss:
  assumes "literal_text s" and "x \<in> set metachars"
  shows "\<forall>a \<in> set (name_atoms s). \<exists>c. a = One c \<and> \<not> mem c x"
proof
  fix a assume "a \<in> set (name_atoms s)"
  then obtain p where p: "p \<in> set s" "a = (case p of Latin c \<Rightarrow> One (Is c) | _ \<Rightarrow> One Far)"
    by (auto simp: name_atoms_def)
  show "\<exists>c. a = One c \<and> \<not> mem c x"
  proof (cases p)
    case (Latin c)
    then have "c \<notin> set metachars" using assms(1) p(1) by (auto simp: literal_text_def list_all_iff)
    then have "c \<noteq> x" using assms(2) by auto
    then show ?thesis using p(2) Latin by auto
  qed (use p(2) in auto)
qed

lemma untouched_await:
  assumes "literal_text s"
  shows "untouched (lit ''await '' @ name_atoms s @ lit ''.'') guard_block"
proof -
  have gb: "guard_block = CHR ''{'' # tl guard_block" by (simp add: guard_block_def)
  have "\<forall>a \<in> set (lit ''wait '' @ name_atoms s @ lit ''.''). \<exists>c. a = One c \<and> \<not> mem c CHR ''{''"
    using name_atoms_miss[OF assms, of "CHR ''{''"] by (auto simp: lit_def metachars_def)
  then have "no_crossing (lit ''wait '' @ name_atoms s @ lit ''.'') (CHR ''{'' # tl guard_block)"
    by (rule no_crossing_ones)
  then have nc: "no_crossing (lit ''wait '' @ name_atoms s @ lit ''.'') guard_block"
    using gb by simp
  have "clear (lit ''aw'') guard_block" by code_simp
  then have "clear (lit ''aw'' @ (lit ''ait '' @ name_atoms s @ lit ''.'')) guard_block" by (rule clear_append)
  then have cl: "clear (lit ''await '' @ name_atoms s @ lit ''.'') guard_block" by (simp add: lit_Cons)
  show ?thesis using nc cl by (simp add: untouched_def lit_Cons)
qed

lemma keeps_block:
  "untouched p guard_block \<Longrightarrow> contains guard_block s \<Longrightarrow> contains guard_block (re_sub [p] f s)"
  by (rule contains_untouched)

subsection \<open>The marker goes through the stages\<close>


lemma contains_marker_block: "contains marker guard_block"
  by code_simp

lemma old_import_untouched: "untouched (lit old_axios_import) axios_import"
  by code_simp

lemma inserted_text:
  "capture 0 (length axios_import) (map (\<lambda>c. [c]) axios_import) @ [LF] @ import_insertion
      = (axios_import @ [LF] @ ''import '') @ guard_block @ ''../helpers/mockHelper';''"
  unfolding capture_lit import_insertion_block by simp

lemma import_lines_nonempty: "old_axios_import \<noteq> []" "axios_import \<noteq> []"
  by (simp_all add: old_axios_import_def axios_import_def)

lemma first_import_step:
  assumes "contains old_axios_import c \<or> contains axios_import c"
  shows "contains axios_import (re_sub [lit old_axios_import] (\<lambda>gs. axios_import) c)"
proof (cases "contains old_axios_import c")
  case True
  from re_sub_lit_hits[OF import_lines_nonempty(1) True, of "\<lambda>gs. axios_import"]
  show ?thesis .
next
  case False
  then have "contains axios_import c" using assms by blast
  with old_import_untouched show ?thesis by (rule contains_untouched)
qed

lemma second_import_step:
  assumes "contains axios_import c"
  shows "contains guard_block
     (re_sub [lit axios_import] (\<lambda>gs. capture 0 (length axios_import) gs @ [LF] @ import_insertion) c)"
proof -
  let ?f = "\<lambda>gs. capture 0 (length axios_import) gs @ [LF] @ import_insertion"
  have "contains (?f (map (\<lambda>c. [c]) axios_import)) (re_sub [lit axios_import] ?f c)"
    using assms by (rule re_sub_lit_hits[OF import_lines_nonempty(2)])
  then have "contains ((axios_import @ [LF] @ ''import '') @ guard_block @ ''../helpers/mockHelper';'')
      (re_sub [lit axios_import] ?f c)"
    unfolding inserted_text .
  with contains_midI show ?thesis by (rule contains_trans)
qed

lemma fix_imports_block:
  assumes "contains old_axios_import c \<or> contains axios_import c"
  shows "contains guard_block (fix_imports c)"
  unfolding fix_imports_def axios_import_pattern_def Let_def
  using assms by (intro second_import_step first_import_step)


lemma fix_method_calls_literal:
  assumes "literal_text (lower e)"
  shows "fix_method_calls beyond c e =
     Some (re_sub page_size_pattern (\<lambda>gs. ''MaxRecords: '' @ capture 10 11 gs)
       (re_sub [lit ''expect(mockAxios.''] (\<lambda>gs. ''expect(setup.mockAxios.'')
         (re_sub [lit ''mockAxios.''] (\<lambda>gs. ''setup.mockAxios.'')
           (re_sub [lit ''await '' @ name_atoms (lower e) @ lit ''.''] (\<lambda>gs. ''await setup.entity.'') c))))"
proof -
  have p: "parse (map Latin ''await '' @ lower e @ [Latin BACKSLASH, Latin CHR ''.''])
      = Some [lit ''await '' @ name_atoms (lower e) @ lit ''.'']"
    using assms by (rule parse_literal)
  show ?thesis unfolding fix_method_calls_def Let_def p by simp
qed

lemma untouched_method_patterns:
  "untouched (lit ''mockAxios.'') guard_block"
  "untouched (lit ''expect(mockAxios.'') guard_block"
  "untouched (lit ''pageSize: '' @ [Plus Digit]) guard_block"
  by code_simp+

lemma fix_method_calls_block:
  assumes "literal_text (lower e)" and "contains guard_block c"
  shows "\<exists>c'. fix_method_calls beyond c e = Some c' \<and> contains guard_block c'"
proof -
  have "contains guard_block (re_sub page_size_pattern (\<lambda>gs. ''MaxRecords: '' @ capture 10 11 gs)
       (re_sub [lit ''expect(mockAxios.''] (\<lambda>gs. ''expect(setup.mockAxios.'')
         (re_sub [lit ''mockAxios.''] (\<lambda>gs. ''setup.mockAxios.'')
           (re_sub [lit ''await '' @ name_atoms (lower e) @ lit ''.''] (\<lambda>gs. ''await setup.entity.'') c))))"
    unfolding page_size_pattern_def
    by (intro keeps_block untouched_method_patterns untouched_await assms)
  then show ?thesis unfolding fix_method_calls_literal[OF assms(1)] by blast
qed


lemma keeps_singleton:
  assumes "p = [q]" and "untouched q guard_block" and "contains guard_block s"
  shows "contains guard_block (re_sub p f s)"
  unfolding assms(1) using assms(2,3) by (rule keeps_block)

lemma singleton_patterns:
  "response_pattern verb data = [hd (response_pattern verb data)]"
  "create_pattern = [hd create_pattern]"
  "query_pattern = [hd query_pattern]"
  "params_pattern = [hd params_pattern]"
  "closing_pattern = [hd closing_pattern]"
  by (simp_all add: response_pattern_def create_pattern_def query_pattern_def params_pattern_def
        closing_pattern_def)

lemma untouched_response_patterns:
  "untouched (hd (response_pattern ''get'' ''data: { items: mockData }'')) guard_block"
  "untouched (hd (response_pattern ''get'' ''data: { items: [] }'')) guard_block"
  "untouched (hd (response_pattern ''get'' ''data: { item: mockData }'')) guard_block"
  "untouched (hd create_pattern) guard_block"
  "untouched (hd (response_pattern ''put'' ''data: { item: mockResponse }'')) guard_block"
  "untouched (hd (response_pattern ''patch'' ''data: { item: mockResponse }'')) guard_block"
  "untouched (hd (response_pattern ''delete'' ''data: {}'')) guard_block"
  by code_simp+

lemma untouched_expectation_patterns:
  "untouched (hd query_pattern) guard_block"
  "untouched (hd params_pattern) guard_block"
  "untouched (hd closing_pattern) guard_block"
  by code_simp+

lemma fix_mock_responses_block:
  assumes "contains guard_block c"
  shows "contains guard_block (fix_mock_responses c)"
  unfolding fix_mock_responses_def Let_def
  by (intro keeps_singleton[OF singleton_patterns(1)] keeps_singleton[OF singleton_patterns(2)]
        untouched_response_patterns assms)

lemma fix_test_expectations_block:
  assumes "contains guard_block c"
  shows "contains guard_block (fix_test_expectations c)"
  unfolding fix_test_expectations_def Let_def
  by (intro keeps_singleton[OF singleton_patterns(3)] keeps_singleton[OF singleton_patterns(4)]
        keeps_singleton[OF singleton_patterns(5)] untouched_expectation_patterns assms)

lemma apply_fixes_marker:
  assumes "literal_text (lower e)" and "contains old_axios_import c \<or> contains axios_import c"
  shows "\<exists>c'. apply_fixes beyond e c = Some c' \<and> contains marker c'"
proof -
  have "contains guard_block (fix_imports c)" using assms(2) by (rule fix_imports_block)
  then obtain c1 where c1: "fix_method_calls beyond (fix_imports c) e = Some c1" "contains guard_block c1"
    using fix_method_calls_block[OF assms(1)] by blast
  have "contains guard_block (fix_test_expectations (fix_mock_responses c1))"
    using c1(2) by (intro fix_test_expectations_block fix_mock_responses_block)
  with contains_marker_block
  have "contains marker (fix_test_expectations (fix_mock_responses c1))" by (rule contains_trans)
  then show ?thesis unfolding apply_fixes_def Let_def c1(1) by simp
qed

subsection \<open>What a run of \<open>process_file\<close> leaves\<close>


lemma process_file_skips:
  assumes "files w filepath = Some f" and "readable f" and "contains marker (body f)"
  shows "process_file beyond filepath w
           = (Inr (), emit [Print (Processing filepath), OpenRead filepath, Print Skipping] w)"
proof -
  have "contains marker (universal_newlines (body f))"
    using assms(3) marker_chars contains_universal_newlines by blast
  then show ?thesis
    using assms(1,2) by (simp add: process_file_def read_text_def Let_def)
qed

lemma process_file_updates:
  assumes "files w filepath = Some f" and "readable f" and "writable f"
    and "\<not> contains marker (universal_newlines (body f))"
    and "apply_fixes beyond (get_entity_name_from_file filepath) (universal_newlines (body f)) = Some c'"
  shows "process_file beyond filepath w
           = (Inr (), emit [Print (Processing filepath), OpenRead filepath, OpenWrite filepath,
                            Print (Updated filepath)]
                        (w\<lparr>files := (files w)(filepath \<mapsto> f\<lparr>body := c'\<rparr>)\<rparr>))"
  using assms by (simp add: process_file_def read_text_def write_text_def Let_def emit_def)

lemma import_line_chars:
  "CR \<notin> set old_axios_import" "LF \<notin> set old_axios_import"
  "CR \<notin> set axios_import" "LF \<notin> set axios_import"
  by (simp_all add: old_axios_import_def axios_import_def CR_def LF_def)

subsection \<open>An entity name that is read as a pattern\<close>


lemma first_match_concat: "first_match p s = Some (gs, r) \<Longrightarrow> s = concat gs @ r"
  by (induction p) (auto split: option.splits dest: rmatch_concat)

lemma capture_chars: "c \<in> set (capture i j gs) \<Longrightarrow> \<exists>g \<in> set gs. c \<in> set g"
  by (auto simp: capture_def dest!: in_set_takeD in_set_dropD)

text \<open>A character that no replacement brings in does not appear.\<close>

lemma re_sub_avoids:
  assumes "\<And>gs. (\<forall>g \<in> set gs. c \<notin> set g) \<Longrightarrow> c \<notin> set (f gs)"
  shows "c \<notin> set s \<Longrightarrow> c \<notin> set (re_sub p f s)"
proof (induction s rule: length_induct)
  case (1 s)
  show ?case
  proof (cases "first_match p s")
    case None
    show ?thesis
    proof (cases s)
      case Nil
      then show ?thesis using None by simp
    next
      case (Cons x xs)
      then have "c \<notin> set (re_sub p f xs)" using 1 by simp
      then show ?thesis using None Cons "1.prems" by simp
    qed
  next
    case (Some m)
    obtain gs r where m: "m = (gs, r)" by (cases m)
    have eq: "s = concat gs @ r" using Some m first_match_concat by blast
    have "c \<notin> set (concat gs @ r)" using "1.prems" eq by metis
    then have g: "\<forall>g \<in> set gs. c \<notin> set g" and r: "c \<notin> set r" by auto
    have fg: "c \<notin> set (f gs)" using g by (rule assms)
    show ?thesis
    proof (cases s)
      case Nil
      then show ?thesis using Some m fg by simp
    next
      case (Cons x xs)
      have xs: "c \<notin> set (re_sub p f xs)" using 1 Cons by simp
      have "length r < length s \<Longrightarrow> c \<notin> set (re_sub p f r)" using 1 r by simp
      then show ?thesis using Some m fg xs Cons "1.prems" by simp
    qed
  qed
qed

text \<open>With \<^verbatim>\<open>.\<close> as an alternative, every character of a line is replaced.\<close>

lemma re_sub_dot_alternative:
  "set (re_sub [One a # p, [One Dot], q] (\<lambda>gs. t) s) \<subseteq> set t \<union> {CHR 0x0A}"
proof (induction s rule: length_induct)
  case (1 s)
  show ?case
  proof (cases s)
    case Nil
    then show ?thesis by (auto split: option.splits)
  next
    case (Cons x xs)
    have xs: "set (re_sub [One a # p, [One Dot], q] (\<lambda>gs. t) xs) \<subseteq> set t \<union> {CHR 0x0A}"
      using 1 Cons by simp
    show ?thesis
    proof (cases "first_match [One a # p, [One Dot], q] (x # xs)")
      case None
      then have "x = CHR 0x0A" by (auto split: option.splits if_splits)
      then show ?thesis using None Cons xs by simp
    next
      case (Some m)
      obtain gs r where m: "m = (gs, r)" by (cases m)
      have ih: "length r < length s \<Longrightarrow>
          set (re_sub [One a # p, [One Dot], q] (\<lambda>gs. t) r) \<subseteq> set t \<union> {CHR 0x0A}"
        using 1 by simp
      have short: "x \<noteq> CHR 0x0A \<Longrightarrow> length r < Suc (length xs)"
      proof -
        assume x: "x \<noteq> CHR 0x0A"
        show ?thesis
        proof (cases "rmatch (One a # p) (x # xs)")
          case None
          then have "first_match [One a # p, [One Dot], q] (x # xs) = Some ([[x]], xs)"
            using x by simp
          then show ?thesis using Some m by simp
        next
          case (Some m')
          then have "rmatch (One a # p) (x # xs) = Some (gs, r)"
            using \<open>first_match [One a # p, [One Dot], q] (x # xs) = Some m\<close> m by simp
          then show ?thesis using rmatch_One_shorter by fastforce
        qed
      qed
      show ?thesis
      proof (cases "length r < Suc (length xs)")
        case True
        then show ?thesis using Some m ih Cons by (auto simp del: first_match.simps)
      next
        case False
        then have "x = CHR 0x0A" using short by blast
        then show ?thesis using Some m xs Cons False by (auto simp del: first_match.simps)
      qed
    qed
  qed
qed

lemma injected_parse:
  "parse (map Latin ''await '' @ lower (get_entity_name_from_file (path_of ''x|.|y.test.ts''))
       @ [Latin BACKSLASH, Latin CHR ''.''])
     = Some [One (Is CHR ''a'') # lit ''wait x'', [One Dot], lit ''y.'']"
  by code_simp

lemma no_E_after_await:
  "CHR ''E'' \<notin> set (re_sub [One (Is CHR ''a'') # lit ''wait x'', [One Dot], lit ''y.'']
      (\<lambda>gs. ''await setup.entity.'') s)"
  using re_sub_dot_alternative[of "Is CHR ''a''" "lit ''wait x''" "lit ''y.''" "''await setup.entity.''" s]
  by auto

lemma injected_fix_method_calls:
  "\<exists>c'. fix_method_calls beyond c (get_entity_name_from_file (path_of ''x|.|y.test.ts'')) = Some c'
        \<and> CHR ''E'' \<notin> set c'"
proof -
  have "CHR ''E'' \<notin> set (re_sub page_size_pattern (\<lambda>gs. ''MaxRecords: '' @ capture 10 11 gs)
       (re_sub [lit ''expect(mockAxios.''] (\<lambda>gs. ''expect(setup.mockAxios.'')
         (re_sub [lit ''mockAxios.''] (\<lambda>gs. ''setup.mockAxios.'')
           (re_sub [One (Is CHR ''a'') # lit ''wait x'', [One Dot], lit ''y.'']
              (\<lambda>gs. ''await setup.entity.'') c))))"
    by (intro re_sub_avoids no_E_after_await) (auto dest: capture_chars)
  then show ?thesis unfolding fix_method_calls_def Let_def injected_parse option.case by simp
qed

lemma fix_mock_responses_avoids:
  "CHR ''E'' \<notin> set c \<Longrightarrow> CHR ''E'' \<notin> set (fix_mock_responses c)"
  unfolding fix_mock_responses_def Let_def
  by (intro re_sub_avoids) auto

lemma fix_test_expectations_avoids:
  "CHR ''E'' \<notin> set c \<Longrightarrow> CHR ''E'' \<notin> set (fix_test_expectations c)"
  unfolding fix_test_expectations_def Let_def
  by (intro re_sub_avoids) (auto simp: QUOTE_def dest: capture_chars)

lemma marker_needs_E: "contains marker s \<Longrightarrow> CHR ''E'' \<in> set s"
  by (auto simp: contains_iff marker_def)

lemma injected_apply_fixes:
  "\<exists>c'. apply_fixes beyond (get_entity_name_from_file (path_of ''x|.|y.test.ts'')) c = Some c'
        \<and> CHR ''E'' \<notin> set c'"
proof -
  obtain c1 where c1: "fix_method_calls beyond (fix_imports c) (get_entity_name_from_file (path_of ''x|.|y.test.ts'')) = Some c1"
      "CHR ''E'' \<notin> set c1"
    using injected_fix_method_calls by blast
  have "CHR ''E'' \<notin> set (fix_test_expectations (fix_mock_responses c1))"
    using c1(2) by (intro fix_test_expectations_avoids fix_mock_responses_avoids)
  then show ?thesis unfolding apply_fixes_def Let_def c1(1) by simp
qed

lemma universal_newlines_chars: "set (universal_newlines s) \<subseteq> set s \<union> {LF}"
  by (induction s rule: universal_newlines.induct) auto

lemma no_E_no_marker: "CHR ''E'' \<notin> set s \<Longrightarrow> \<not> contains marker (universal_newlines s)"
  using marker_needs_E universal_newlines_chars by (fastforce simp: LF_def)

subsection \<open>A file in which nothing matches\<close>


lemma universal_newlines_id: "CR \<notin> set s \<Longrightarrow> universal_newlines s = s"
  by (induction s rule: universal_newlines.induct) auto

text \<open>
  The pattern built from the entity name matches nowhere in a content: by the matcher of
  the model when the pattern is in its fragment; otherwise \<^verbatim>\<open>re.sub\<close> gives the content
  back as it is.
\<close>

lemma apply_fixes_nowhere:
  assumes "case parse (map Latin ''await '' @ lower e @ [Latin BACKSLASH, Latin CHR ''.'']) of
             Some rx \<Rightarrow> nowhere rx c
           | None \<Rightarrow> beyond (map Latin ''await '' @ lower e @ [Latin BACKSLASH, Latin CHR ''.''])
                      ''await setup.entity.'' c = Some c"
    and "list_all (\<lambda>p. nowhere p c) fixed_patterns"
  shows "apply_fixes beyond e c = Some c"
proof -
  have a: "(case parse (map Latin ''await '' @ lower e @ [Latin BACKSLASH, Latin CHR ''.'']) of
              Some p \<Rightarrow> Some (re_sub p (\<lambda>gs. ''await setup.entity.'') c)
            | None \<Rightarrow> beyond (map Latin ''await '' @ lower e @ [Latin BACKSLASH, Latin CHR ''.''])
                       ''await setup.entity.'' c) = Some c"
    using assms(1) by (auto split: option.splits simp: re_sub_nowhere)
  have n: "nowhere [lit old_axios_import] c" "nowhere axios_import_pattern c"
    "nowhere [lit ''mockAxios.''] c" "nowhere [lit ''expect(mockAxios.''] c" "nowhere page_size_pattern c"
    "nowhere (response_pattern ''get'' ''data: { items: mockData }'') c"
    "nowhere (response_pattern ''get'' ''data: { items: [] }'') c"
    "nowhere (response_pattern ''get'' ''data: { item: mockData }'') c"
    "nowhere create_pattern c"
    "nowhere (response_pattern ''put'' ''data: { item: mockResponse }'') c"
    "nowhere (response_pattern ''patch'' ''data: { item: mockResponse }'') c"
    "nowhere (response_pattern ''delete'' ''data: {}'') c"
    "nowhere query_pattern c" "nowhere params_pattern c" "nowhere closing_pattern c"
    using assms(2) unfolding fixed_patterns_def by simp_all
  have 1: "fix_imports c = c"
    unfolding fix_imports_def Let_def by (simp only: re_sub_nowhere n)
  have 2: "fix_method_calls beyond c e = Some c"
    unfolding fix_method_calls_def Let_def a option.case by (simp only: re_sub_nowhere n)
  have 3: "fix_mock_responses c = c"
    unfolding fix_mock_responses_def Let_def by (simp only: re_sub_nowhere n)
  have 4: "fix_test_expectations c = c"
    unfolding fix_test_expectations_def Let_def by (simp only: re_sub_nowhere n)
  show ?thesis unfolding apply_fixes_def Let_def 1 2 option.case 3 4 ..
qed


subsection \<open>The three steps of \<open>fix_test_expectations\<close> on one assertion\<close>


lemma re_sub_hit:
  assumes "rmatch (One c # as) (x # xs) = Some (gs, r)"
  shows "re_sub [One c # as] f (x # xs) = f gs @ re_sub [One c # as] f r"
  unfolding re_sub_Cons assms by simp


lemma pattern_heads:
  "query_pattern = [One (Is CHR ''e'') # tl (hd query_pattern)]"
  "params_pattern = [One (Is CHR ''p'') # tl (hd params_pattern)]"
  "closing_pattern = [One (Is CHR ''}'') # tl (hd closing_pattern)]"
  by (simp_all add: query_pattern_def params_pattern_def closing_pattern_def query_head_def lit_def)

lemma query_match:
  "\<exists>gs. rmatch (One (Is CHR ''e'') # tl (hd query_pattern)) (old_assertion @ v) = Some (gs, v)
     \<and> capture (length query_head) (Suc (length query_head)) gs = ''/widgets''"
  by (simp add: query_pattern_def query_head_def lit_def QUOTE_def capture_def old_assertion_def)

lemma closer_match:
  "rmatch (One (Is CHR ''}'') # tl (hd closing_pattern)) (''} });'' @ v) = Some ([''}'', '' '', ''}'', '')'', '';''], v)"
  by (simp add: closing_pattern_def lit_def)

lemma boundaries:
  "no_crossing (tl (hd query_pattern)) old_assertion"
  "no_crossing (tl (hd params_pattern)) new_assertion"
  "no_crossing (tl (hd closing_pattern)) new_assertion"
  "no_crossing (tl (hd params_pattern)) old_closer"
  "no_crossing (tl (hd closing_pattern)) old_closer"
  by code_simp+

lemma clear_parts:
  "clear (hd query_pattern) '' ''"
  "clear (hd params_pattern) old_closer"
  "clear (hd params_pattern) (new_assertion @ '' '')"
  "clear (hd closing_pattern) (new_assertion @ '' '')"
  by code_simp+

lemma heads_hd:
  "One (Is CHR ''e'') # tl (hd query_pattern) = hd query_pattern"
  "One (Is CHR ''p'') # tl (hd params_pattern) = hd params_pattern"
  "One (Is CHR ''}'') # tl (hd closing_pattern) = hd closing_pattern"
  by (simp_all add: query_pattern_def params_pattern_def closing_pattern_def query_head_def lit_def)

lemma fix_test_expectations_stages:
  "fix_test_expectations c =
     re_sub closing_pattern (\<lambda>gs. ''});'')
       (re_sub params_pattern (\<lambda>gs. ''filter:'') (re_sub query_pattern query_repl c))"
  unfolding fix_test_expectations_def Let_def query_repl_def ..

lemma re_sub_hit_prefix:
  assumes "rmatch (One c # as) (k @ v) = Some (gs, v)" and "k \<noteq> []"
  shows "re_sub [One c # as] f (k @ v) = f gs @ re_sub [One c # as] f v"
proof -
  obtain x xs where k: "k = x # xs" using assms(2) by (cases k) auto
  show ?thesis using assms(1) unfolding k append_Cons by (rule re_sub_hit)
qed

text \<open>
  The first step. \<open>clear (hd query_pattern) (X @ old_closer)\<close> says that no match of the
  query pattern begins inside \<open>X\<close>, whatever follows the statement.
\<close>

lemma query_stage:
  assumes "clear (hd query_pattern) (X @ old_closer)"
  shows "re_sub query_pattern query_repl (pre @ old_assertion @ ('' '' @ X @ old_closer) @ post)
         = re_sub query_pattern query_repl pre @ new_assertion @ ('' '' @ X @ old_closer)
           @ re_sub query_pattern query_repl post"
proof -
  let ?p = "One (Is CHR ''e'') # tl (hd query_pattern)"
  let ?t = "('' '' @ X @ old_closer) @ post"
  have split: "re_sub [?p] query_repl (pre @ old_assertion @ ?t)
      = re_sub [?p] query_repl pre @ re_sub [?p] query_repl (old_assertion @ ?t)"
    using no_crossing_halt[OF boundaries(1)] by (rule re_sub_append)
  obtain gs where gs: "rmatch ?p (old_assertion @ ?t) = Some (gs, ?t)"
      "capture (length query_head) (Suc (length query_head)) gs = ''/widgets''"
    using query_match by blast
  have ne: "old_assertion \<noteq> []" by (simp add: old_assertion_def)
  have hit: "re_sub [?p] query_repl (old_assertion @ ?t) = query_repl gs @ re_sub [?p] query_repl ?t"
    using gs(1) ne by (rule re_sub_hit_prefix)
  have fg: "query_repl gs = new_assertion"
    unfolding query_repl_def gs(2) by (simp add: new_assertion_def QUOTE_def)
  have 1: "re_sub [hd query_pattern] query_repl ('' '' @ ((X @ old_closer) @ post))
      = '' '' @ re_sub [hd query_pattern] query_repl ((X @ old_closer) @ post)"
    using clear_parts(1) by (rule re_sub_clear)
  have 2: "re_sub [hd query_pattern] query_repl ((X @ old_closer) @ post)
      = (X @ old_closer) @ re_sub [hd query_pattern] query_repl post"
    using assms by (rule re_sub_clear)
  have "re_sub [hd query_pattern] query_repl ?t
      = ('' '' @ X @ old_closer) @ re_sub [hd query_pattern] query_repl post"
    using 1 2 by (simp only: append_assoc)
  then have skip: "re_sub [?p] query_repl ?t = ('' '' @ X @ old_closer) @ re_sub [?p] query_repl post"
    unfolding heads_hd .
  have "re_sub [?p] query_repl (pre @ old_assertion @ ?t)
      = re_sub [?p] query_repl pre @ new_assertion @ ('' '' @ X @ old_closer) @ re_sub [?p] query_repl post"
    unfolding split hit fg skip ..
  then show ?thesis unfolding pattern_heads(1)[symmetric] .
qed

lemma params_stage:
  assumes "nowhere params_pattern X"
  shows "re_sub params_pattern f (u @ new_assertion @ ('' '' @ X @ old_closer) @ v)
         = re_sub params_pattern f u @ new_assertion @ ('' '' @ X @ old_closer) @ re_sub params_pattern f v"
proof -
  let ?p = "One (Is CHR ''p'') # tl (hd params_pattern)"
  let ?t = "new_assertion @ ('' '' @ X @ old_closer) @ v"
  have split: "re_sub [?p] f (u @ ?t) = re_sub [?p] f u @ re_sub [?p] f ?t"
    using no_crossing_halt[OF boundaries(2)] by (rule re_sub_append)
  have 1: "re_sub [hd params_pattern] f ((new_assertion @ '' '') @ (X @ old_closer @ v))
      = (new_assertion @ '' '') @ re_sub [hd params_pattern] f (X @ old_closer @ v)"
    using clear_parts(3) by (rule re_sub_clear)
  have 2: "re_sub [?p] f (X @ (old_closer @ v)) = re_sub [?p] f X @ re_sub [?p] f (old_closer @ v)"
    using no_crossing_halt[OF boundaries(4)] by (rule re_sub_append)
  have 3: "re_sub [?p] f X = X"
    using assms unfolding pattern_heads(2)[symmetric] by (rule re_sub_nowhere)
  have 4: "re_sub [hd params_pattern] f (old_closer @ v) = old_closer @ re_sub [hd params_pattern] f v"
    using clear_parts(2) by (rule re_sub_clear)
  have "re_sub [?p] f ?t = new_assertion @ ('' '' @ X @ old_closer) @ re_sub [?p] f v"
    using 1 2 3 4 unfolding heads_hd by (simp only: append_assoc)
  then have "re_sub [?p] f (u @ ?t)
      = re_sub [?p] f u @ new_assertion @ ('' '' @ X @ old_closer) @ re_sub [?p] f v"
    unfolding split by simp
  then show ?thesis unfolding pattern_heads(2)[symmetric] .
qed

lemma closing_stage:
  assumes "nowhere closing_pattern X"
  shows "re_sub closing_pattern (\<lambda>gs. ''});'') (u @ new_assertion @ ('' '' @ X @ old_closer) @ v)
         = re_sub closing_pattern (\<lambda>gs. ''});'') u @ new_assertion @ ('' '' @ X @ '' });'')
           @ re_sub closing_pattern (\<lambda>gs. ''});'') v"
    (is "re_sub _ ?f _ = _")
proof -
  let ?p = "One (Is CHR ''}'') # tl (hd closing_pattern)"
  let ?t = "new_assertion @ ('' '' @ X @ old_closer) @ v"
  have split: "re_sub [?p] ?f (u @ ?t) = re_sub [?p] ?f u @ re_sub [?p] ?f ?t"
    using no_crossing_halt[OF boundaries(3)] by (rule re_sub_append)
  have "re_sub [?p] ?f ((new_assertion @ '' '') @ (X @ old_closer @ v))
      = (new_assertion @ '' '') @ re_sub [?p] ?f (X @ old_closer @ v)"
    using clear_parts(4) unfolding heads_hd by (rule re_sub_clear)
  then have 1: "re_sub [?p] ?f ?t = new_assertion @ '' '' @ re_sub [?p] ?f (X @ old_closer @ v)"
    by (simp only: append_assoc)
  have 2: "re_sub [?p] ?f (X @ (old_closer @ v)) = re_sub [?p] ?f X @ re_sub [?p] ?f (old_closer @ v)"
    using no_crossing_halt[OF boundaries(5)] by (rule re_sub_append)
  have x: "re_sub [?p] ?f X = X"
    using assms unfolding pattern_heads(3)[symmetric] by (rule re_sub_nowhere)
  have "rmatch ?p (CHR '' '' # ''} });'' @ v) = None" by simp
  then have 3: "re_sub [?p] ?f (old_closer @ v) = CHR '' '' # re_sub [?p] ?f (''} });'' @ v)"
    by (simp add: old_closer_def re_sub_Cons del: re_sub.simps rmatch.simps)
  have 4: "re_sub [?p] ?f (''} });'' @ v) = ''});'' @ re_sub [?p] ?f v"
    using closer_match by (rule re_sub_hit_prefix) simp
  have "re_sub [?p] ?f (u @ ?t)
      = re_sub [?p] ?f u @ new_assertion @ ('' '' @ X @ '' });'') @ re_sub [?p] ?f v"
    unfolding split 1 2 x 3 4 by simp
  then show ?thesis unfolding pattern_heads(3)[symmetric] .
qed

subsection \<open>No pattern of the model matches the empty text\<close>

lemma first_match_consumes:
  "list_all headed p \<Longrightarrow> first_match p s = Some (gs, r) \<Longrightarrow> length r < length s"
proof (induction p)
  case Nil
  then show ?case by simp
next
  case (Cons q p)
  show ?case
  proof (cases "rmatch q s")
    case None
    then show ?thesis using Cons by simp
  next
    case (Some m)
    then have m: "rmatch q s = Some (gs, r)" using Cons.prems(2) by simp
    obtain c as where "q = One c # as" using Cons.prems(1) by (cases q rule: headed.cases) auto
    then show ?thesis using m rmatch_One_shorter by blast
  qed
qed

lemma parse_branch_headed: "parse_branch b = Some q \<Longrightarrow> q \<noteq> [] \<Longrightarrow> headed q"
  by (cases b rule: parse_branch.cases) (auto split: if_splits list.splits)

lemma parse_headed:
  assumes "parse t = Some p"
  shows "list_all headed p"
proof -
  let ?bs = "map parse_branch (split_bar t)"
  have n: "None \<notin> set ?bs" "Some [] \<notin> set ?bs" and p: "p = map the ?bs"
    using assms by (auto simp: parse_def Let_def split: if_splits)
  have "headed (the b)" if b: "b \<in> set ?bs" for b
  proof -
    from b obtain s where s: "b = parse_branch s" by auto
    have "b \<noteq> None" using b n(1) by metis
    then obtain q where q: "b = Some q" by (cases b) auto
    have "q \<noteq> []" using b n(2) q by metis
    then show ?thesis using parse_branch_headed[of s q] q s by simp
  qed
  then show ?thesis unfolding p by (simp add: list_all_iff)
qed

lemma fixed_patterns_headed: "list_all (list_all headed) fixed_patterns"
  by code_simp

section \<open>The claims\<close>

subsection \<open>C1: running \<open>process_file\<close> twice\<close>

text \<open>
  C1, as amended. For a readable and writable file whose entity name has no character
  special to regular expressions, and whose content holds the marker
  \<^verbatim>\<open>createEntityTestSetup\<close> or one of the two axios import lines, a second run of
  \<^verbatim>\<open>process_file\<close> right after the first finds the marker and skips: it returns
  without an error and the files are as the first run left them.
\<close>

theorem second_run_skips:
  assumes "files w filepath = Some f" and "readable f" and "writable f"
    and "literal_text (lower (get_entity_name_from_file filepath))"
    and "contains marker (body f) \<or> contains old_axios_import (body f) \<or> contains axios_import (body f)"
  shows "fst (process_file beyond filepath w) = Inr ()
       \<and> process_file beyond filepath (snd (process_file beyond filepath w))
           = (Inr (), emit [Print (Processing filepath), OpenRead filepath, Print Skipping]
                        (snd (process_file beyond filepath w)))
       \<and> files (snd (process_file beyond filepath (snd (process_file beyond filepath w))))
           = files (snd (process_file beyond filepath w))"
proof (cases "contains marker (universal_newlines (body f))")
  case True
  have 1: "process_file beyond filepath w
           = (Inr (), emit [Print (Processing filepath), OpenRead filepath, Print Skipping] w)"
    using assms(1,2) True by (simp add: process_file_def read_text_def Let_def)
  let ?w1 = "emit [Print (Processing filepath), OpenRead filepath, Print Skipping] w"
  have "files ?w1 filepath = Some f" using assms(1) by simp
  then have 2: "process_file beyond filepath ?w1
           = (Inr (), emit [Print (Processing filepath), OpenRead filepath, Print Skipping] ?w1)"
    using assms(2) True by (simp add: process_file_def read_text_def Let_def)
  show ?thesis unfolding 1 using 2 by simp
next
  case False
  then have "\<not> contains marker (body f)"
    using marker_chars contains_universal_newlines by blast
  then have "contains old_axios_import (body f) \<or> contains axios_import (body f)"
    using assms(5) by blast
  then have "contains old_axios_import (universal_newlines (body f))
           \<or> contains axios_import (universal_newlines (body f))"
    using import_line_chars import_lines_nonempty contains_universal_newlines by blast
  then obtain c' where c': "apply_fixes beyond (get_entity_name_from_file filepath) (universal_newlines (body f)) = Some c'"
      "contains marker c'"
    using apply_fixes_marker[OF assms(4)] by blast
  let ?w1 = "emit [Print (Processing filepath), OpenRead filepath, OpenWrite filepath, Print (Updated filepath)]
                        (w\<lparr>files := (files w)(filepath \<mapsto> f\<lparr>body := c'\<rparr>)\<rparr>)"
  have 1: "process_file beyond filepath w = (Inr (), ?w1)"
    using assms(1,2,3) False c'(1) by (rule process_file_updates)
  have "files ?w1 filepath = Some (f\<lparr>body := c'\<rparr>)" by simp
  moreover have "readable (f\<lparr>body := c'\<rparr>)" using assms(2) by simp
  moreover have "contains marker (body (f\<lparr>body := c'\<rparr>))" using c'(2) by simp
  ultimately have 2: "process_file beyond filepath ?w1
           = (Inr (), emit [Print (Processing filepath), OpenRead filepath, Print Skipping] ?w1)"
    by (rule process_file_skips)
  show ?thesis unfolding 1 using 2 by simp
qed

theorem second_run_skips_witness:
  "files (snd (process_file no_beyond (path_of ''widgets.test.ts'')
       (snd (process_file no_beyond (path_of ''widgets.test.ts'')
          (example_world [(''widgets.test.ts'', ''import axios, { AxiosInstance, AxiosResponse } from 'axios'; mockAxios.get();'')])))))
   = files (snd (process_file no_beyond (path_of ''widgets.test.ts'')
          (example_world [(''widgets.test.ts'', ''import axios, { AxiosInstance, AxiosResponse } from 'axios'; mockAxios.get();'')])))"
proof -
  let ?f = "\<lparr>body = ''import axios, { AxiosInstance, AxiosResponse } from 'axios'; mockAxios.get();'', readable = True, writable = True\<rparr>"
  let ?w = "example_world [(''widgets.test.ts'', ''import axios, { AxiosInstance, AxiosResponse } from 'axios'; mockAxios.get();'')]"
  have 1: "files ?w (path_of ''widgets.test.ts'') = Some ?f" by (simp add: example_world_def)
  have 2: "readable ?f" and 3: "writable ?f" by simp_all
  have 4: "literal_text (lower (get_entity_name_from_file (path_of ''widgets.test.ts'')))" by code_simp
  have "contains old_axios_import (body ?f)" by code_simp
  then have 5: "contains marker (body ?f) \<or> contains old_axios_import (body ?f) \<or> contains axios_import (body ?f)"
    by blast
  show ?thesis using second_run_skips[OF 1 2 3 4 5, of no_beyond] by simp
qed

text \<open>
  C1 as stated is about every file. A file without the marker and without an axios import
  line gets no marker from the first run, so the second run rewrites it again:
  \<^verbatim>\<open>mockAxios.get();\<close> becomes \<^verbatim>\<open>setup.mockAxios.get();\<close> and then
  \<^verbatim>\<open>setup.setup.mockAxios.get();\<close>.
\<close>

theorem second_run_counterexample:
  "map_option body (files (snd (process_file no_beyond (path_of ''widgets.test.ts'')
       (snd (process_file no_beyond (path_of ''widgets.test.ts'')
          (example_world [(''widgets.test.ts'', ''mockAxios.get();'')]))))) (path_of ''widgets.test.ts''))
   \<noteq> map_option body (files (snd (process_file no_beyond (path_of ''widgets.test.ts'')
       (example_world [(''widgets.test.ts'', ''mockAxios.get();'')]))) (path_of ''widgets.test.ts''))"
proof -
  have once: "map_option body (files (snd (process_file no_beyond (path_of ''widgets.test.ts'')
       (example_world [(''widgets.test.ts'', ''mockAxios.get();'')]))) (path_of ''widgets.test.ts''))
     = Some ''setup.mockAxios.get();''"
    by code_simp
  have twice: "map_option body (files (snd (process_file no_beyond (path_of ''widgets.test.ts'')
       (snd (process_file no_beyond (path_of ''widgets.test.ts'')
          (example_world [(''widgets.test.ts'', ''mockAxios.get();'')]))))) (path_of ''widgets.test.ts''))
     = Some ''setup.setup.mockAxios.get();''"
    by code_simp
  show ?thesis unfolding once twice by simp
qed

subsection \<open>C2: the name derived from a file path\<close>

text \<open>
  C2, as amended. Over paths of the characters U+0000 to U+00FF: for a file path whose base
  name is \<open>stem\<close> followed by \<^verbatim>\<open>.test.ts\<close>, with no other occurrence of \<^verbatim>\<open>.test.ts\<close> in it,
  \<^verbatim>\<open>get_entity_name_from_file\<close> returns the stem with its first character in title case and
  every other character in lower case, as \<^verbatim>\<open>str.capitalize\<close> does. The title case of a
  small letter is its capital (U+00E9 gives U+00C9), with U+00DF giving \<^verbatim>\<open>Ss\<close>, U+00B5
  giving U+039C and U+00FF giving U+0178; every other first character stays. The lower case
  of a capital letter, of A to Z or of U+00C0 to U+00DE without U+00D7, is its small letter.
  So \<^verbatim>\<open>widgets\<close> gives \<^verbatim>\<open>Widgets\<close> and \<^verbatim>\<open>aBCtest\<close> gives \<^verbatim>\<open>Abctest\<close>.
\<close>

theorem entity_name_capitalized:
  assumes "basename filepath = stem @ ''.test.ts''"
    and "\<not> contains ''.test.ts'' (stem @ ''.test.t'')"
  shows "get_entity_name_from_file filepath
           = (case stem of [] \<Rightarrow> [] | c # cs \<Rightarrow> title c @ map (\<lambda>d. Latin (lower_char d)) cs)
       \<and> get_entity_name_from_file ''test/entities/widgets.test.ts'' = map Latin ''Widgets''
       \<and> get_entity_name_from_file ''test/entities/aBCtest.test.ts'' = map Latin ''Abctest''"
proof -
  have "replace ''.test.ts'' [] (stem @ ''.test.ts'') = stem"
    using replace_scan_suffix[of "''.test.ts''" stem "[]"] assms(2) by (simp add: replace_def)
  then have "get_entity_name_from_file filepath = capitalize stem"
    using assms(1) by (simp add: get_entity_name_from_file_def)
  moreover have "capitalize stem
      = (case stem of [] \<Rightarrow> [] | c # cs \<Rightarrow> title c @ map (\<lambda>d. Latin (lower_char d)) cs)"
    by (cases stem) simp_all
  moreover have "get_entity_name_from_file ''test/entities/widgets.test.ts'' = map Latin ''Widgets''"
    by code_simp
  moreover have "get_entity_name_from_file ''test/entities/aBCtest.test.ts'' = map Latin ''Abctest''"
    by code_simp
  ultimately show ?thesis by simp
qed

text \<open>
  The file \<^verbatim>\<open>test/entities/\<close>U+00E9\<^verbatim>\<open>lAN.test.ts\<close> gives U+00C9\<^verbatim>\<open>lan\<close>.
\<close>

theorem entity_name_capitalized_witness:
  "get_entity_name_from_file (''test/entities/'' @ [CHR 0xE9] @ ''lAN.test.ts'')
     = [Latin (CHR 0xC9), Latin CHR ''l'', Latin CHR ''a'', Latin CHR ''n'']"
proof -
  have 1: "basename (''test/entities/'' @ [CHR 0xE9] @ ''lAN.test.ts'') = (CHR 0xE9 # ''lAN'') @ ''.test.ts''"
    by code_simp
  have 2: "\<not> contains ''.test.ts'' ((CHR 0xE9 # ''lAN'') @ ''.test.t'')" by code_simp
  have 3: "(case CHR 0xE9 # ''lAN'' of [] \<Rightarrow> [] | c # cs \<Rightarrow> title c @ map (\<lambda>d. Latin (lower_char d)) cs)
      = [Latin (CHR 0xC9), Latin CHR ''l'', Latin CHR ''a'', Latin CHR ''n'']"
    by code_simp
  from entity_name_capitalized[OF 1 2]
  have "get_entity_name_from_file (''test/entities/'' @ [CHR 0xE9] @ ''lAN.test.ts'')
      = (case CHR 0xE9 # ''lAN'' of [] \<Rightarrow> [] | c # cs \<Rightarrow> title c @ map (\<lambda>d. Latin (lower_char d)) cs)"
    by (rule conjunct1)
  then show ?thesis unfolding 3 .
qed

text \<open>
  C2 as stated says that no character but the first is altered and that \<^verbatim>\<open>aBCtest\<close>
  gives \<^verbatim>\<open>ABCtest\<close>; \<^verbatim>\<open>capitalize\<close> lower-cases the rest.
\<close>

theorem entity_name_counterexample:
  "get_entity_name_from_file ''test/entities/aBCtest.test.ts'' \<noteq> map Latin ''ABCtest''"
  by code_simp

subsection \<open>C3: a file in which no pattern matches\<close>

text \<open>
  C3, as amended. For a readable and writable file without the marker and without a
  carriage return, in which none of the patterns of the four stages matches anywhere,
  \<^verbatim>\<open>process_file\<close> writes the file back with the content it had. The patterns are the old
  and the new axios import line, the awaited entity call, \<^verbatim>\<open>mockAxios.\<close>, \<^verbatim>\<open>pageSize\<close> with
  digits, the seven mock-response shapes, the query assertion, the \<^verbatim>\<open>params: { filter:\<close>
  wrapper and the closer \<^verbatim>\<open>} });\<close>, with the white space the patterns allow. The pattern
  of the awaited entity call is made of the file name: it has to be a regular expression, and
  to match nowhere. Where the name puts other special characters than the dot and the bar
  into it, that is: \<^verbatim>\<open>re.sub\<close> accepts the pattern and gives the content back as it is.
\<close>

theorem unmatched_file_written_back:
  assumes "files w filepath = Some f" and "readable f" and "writable f"
    and "CR \<notin> set (body f)"
    and "\<not> contains marker (body f)"
    and "case parse (map Latin ''await '' @ lower (get_entity_name_from_file filepath)
                      @ [Latin BACKSLASH, Latin CHR ''.'']) of
           Some rx \<Rightarrow> nowhere rx (body f)
         | None \<Rightarrow> beyond (map Latin ''await '' @ lower (get_entity_name_from_file filepath)
                             @ [Latin BACKSLASH, Latin CHR ''.''])
                      ''await setup.entity.'' (body f) = Some (body f)"
    and "list_all (\<lambda>p. nowhere p (body f)) fixed_patterns"
  shows "process_file beyond filepath w
           = (Inr (), emit [Print (Processing filepath), OpenRead filepath, OpenWrite filepath,
                            Print (Updated filepath)] w)
       \<and> files (snd (process_file beyond filepath w)) = files w"
proof -
  have u: "universal_newlines (body f) = body f" using assms(4) by (rule universal_newlines_id)
  have a: "apply_fixes beyond (get_entity_name_from_file filepath) (universal_newlines (body f)) = Some (body f)"
    unfolding u using assms(6,7) by (rule apply_fixes_nowhere)
  have n: "\<not> contains marker (universal_newlines (body f))" unfolding u by (rule assms(5))
  have "w\<lparr>files := (files w)(filepath \<mapsto> f\<lparr>body := body f\<rparr>)\<rparr> = w"
    using assms(1) by (simp add: map_upd_triv)
  then show ?thesis using process_file_updates[OF assms(1,2,3) n a] by simp
qed

theorem unmatched_file_written_back_witness:
  "files (snd (process_file no_beyond (path_of ''widgets.test.ts'')
       (example_world [(''widgets.test.ts'', ''const widgets = new Widgets(client);'')])))
   = files (example_world [(''widgets.test.ts'', ''const widgets = new Widgets(client);'')])"
proof -
  let ?s = "''const widgets = new Widgets(client);''"
  let ?f = "\<lparr>body = ?s, readable = True, writable = True\<rparr>"
  have 1: "files (example_world [(''widgets.test.ts'', ?s)]) (path_of ''widgets.test.ts'') = Some ?f"
    by (simp add: example_world_def)
  have 2: "readable ?f" and 3: "writable ?f" by simp_all
  have 4: "CR \<notin> set (body ?f)" by (simp add: CR_def)
  have 5: "\<not> contains marker (body ?f)" by code_simp
  have p: "parse (map Latin ''await '' @ lower (get_entity_name_from_file (path_of ''widgets.test.ts''))
                   @ [Latin BACKSLASH, Latin CHR ''.''])
      = Some [lit ''await widgets.'']"
    by code_simp
  have "nowhere [lit ''await widgets.''] (body ?f)" by code_simp
  then have 6: "case parse (map Latin ''await '' @ lower (get_entity_name_from_file (path_of ''widgets.test.ts''))
                      @ [Latin BACKSLASH, Latin CHR ''.'']) of
           Some rx \<Rightarrow> nowhere rx (body ?f)
         | None \<Rightarrow> no_beyond (map Latin ''await '' @ lower (get_entity_name_from_file (path_of ''widgets.test.ts''))
                             @ [Latin BACKSLASH, Latin CHR ''.''])
                      ''await setup.entity.'' (body ?f) = Some (body ?f)"
    unfolding p by simp
  have 7: "list_all (\<lambda>p. nowhere p (body ?f)) fixed_patterns" by code_simp
  show ?thesis using unmatched_file_written_back[where beyond = no_beyond, OF 1 2 3 4 5 6 7] by simp
qed

text \<open>
  C3 as stated leaves three patterns out of its list. A file that has none of the listed
  shapes but holds the closer \<^verbatim>\<open>} });\<close> is changed: \<^verbatim>\<open>client.send({ page: { size: 1 } });\<close>
  is written back as \<^verbatim>\<open>client.send({ page: { size: 1 });\<close>.
\<close>

theorem unmatched_file_counterexample:
  "nowhere [lit old_axios_import] ''client.send({ page: { size: 1 } });''
   \<and> nowhere [lit ''await widgets.''] ''client.send({ page: { size: 1 } });''
   \<and> nowhere [lit ''mockAxios.''] ''client.send({ page: { size: 1 } });''
   \<and> nowhere page_size_pattern ''client.send({ page: { size: 1 } });''
   \<and> nowhere (response_pattern ''get'' ''data: { items: mockData }'') ''client.send({ page: { size: 1 } });''
   \<and> nowhere (response_pattern ''get'' ''data: { items: [] }'') ''client.send({ page: { size: 1 } });''
   \<and> nowhere (response_pattern ''get'' ''data: { item: mockData }'') ''client.send({ page: { size: 1 } });''
   \<and> nowhere create_pattern ''client.send({ page: { size: 1 } });''
   \<and> nowhere (response_pattern ''put'' ''data: { item: mockResponse }'') ''client.send({ page: { size: 1 } });''
   \<and> nowhere (response_pattern ''patch'' ''data: { item: mockResponse }'') ''client.send({ page: { size: 1 } });''
   \<and> nowhere (response_pattern ''delete'' ''data: {}'') ''client.send({ page: { size: 1 } });''
   \<and> nowhere query_pattern ''client.send({ page: { size: 1 } });''
   \<and> map_option body (files (snd (process_file no_beyond (path_of ''widgets.test.ts'')
         (example_world [(''widgets.test.ts'', ''client.send({ page: { size: 1 } });'')])))
         (path_of ''widgets.test.ts''))
       \<noteq> Some ''client.send({ page: { size: 1 } });''"
  by code_simp

subsection \<open>C4: the mock responses, end to end\<close>

text \<open>
  C4 fails on the code. \<^verbatim>\<open>fix_method_calls\<close> runs first and puts \<^verbatim>\<open>setup.\<close> before
  every \<^verbatim>\<open>mockAxios.\<close>; \<^verbatim>\<open>fix_mock_responses\<close> then matches from \<^verbatim>\<open>mockAxios.\<close> on
  and writes a replacement that begins with \<^verbatim>\<open>setup.\<close> again. What \<^verbatim>\<open>process_file\<close>
  writes for the list shape and for the empty-list shape begins with
  \<^verbatim>\<open>setup.setup.mockAxios.post\<close>.
\<close>

theorem list_response_end_to_end:
  "map_option body (files (snd (process_file no_beyond (path_of ''widgets.test.ts'')
       (example_world [(''widgets.test.ts'',
          ''mockAxios.get.mockResolvedValueOnce({ data: { items: mockData }, status: 200 });'')])))
       (path_of ''widgets.test.ts''))
     = Some ''setup.setup.mockAxios.post.mockResolvedValueOnce(\<newline>        createMockItemsResponse(mockData)\<newline>      );''
   \<and> map_option body (files (snd (process_file no_beyond (path_of ''widgets.test.ts'')
       (example_world [(''widgets.test.ts'',
          ''mockAxios.get.mockResolvedValueOnce({ data: { items: [] }, status: 200 });'')])))
       (path_of ''widgets.test.ts''))
     = Some ''setup.setup.mockAxios.post.mockResolvedValueOnce(\<newline>        createMockItemsResponse([])\<newline>      );''"
  by code_simp

subsection \<open>C5: the query assertion\<close>

text \<open>
  C5, as amended. Wherever a file content holds the statement
  \<^verbatim>\<open>expect(setup.mockAxios.get).toHaveBeenCalledWith('/widgets/query', { params: { filter: X } });\<close>
  ended by its semicolon, \<^verbatim>\<open>fix_test_expectations\<close> replaces it with
  \<^verbatim>\<open>expect(setup.mockAxios.post).toHaveBeenCalledWith('/widgets/query', {\<close>, a line break,
  eight spaces and \<^verbatim>\<open>filter: X });\<close>, and rewrites the text before it and the text
  after it on their own. Here \<open>X\<close> is any text in which the three steps find nothing of
  their own to rewrite: no match of the query assertion begins inside \<open>X\<close>, whatever
  text follows the statement, and neither the wrapper \<^verbatim>\<open>params: { filter:\<close> nor the closer
  \<^verbatim>\<open>} });\<close> is matched inside \<open>X\<close>. Braces and parentheses in \<open>X\<close> do no harm.
\<close>

theorem query_assertion_rewritten:
  assumes "clear (hd query_pattern) (X @ '' } });'')"
    and "nowhere params_pattern X"
    and "nowhere closing_pattern X"
  shows "fix_test_expectations
           (pre @ ''expect(setup.mockAxios.get).toHaveBeenCalledWith('/widgets/query', { params: { filter: ''
              @ X @ '' } });'' @ post)
         = fix_test_expectations pre
           @ ''expect(setup.mockAxios.post).toHaveBeenCalledWith('/widgets/query', {\<newline>        filter: ''
              @ X @ '' });'' @ fix_test_expectations post"
proof -
  have i: "pre @ ''expect(setup.mockAxios.get).toHaveBeenCalledWith('/widgets/query', { params: { filter: ''
              @ X @ '' } });'' @ post
      = pre @ old_assertion @ ('' '' @ X @ old_closer) @ post"
    by (simp add: old_assertion_def old_closer_def)
  have o: "new_assertion @ ('' '' @ X @ '' });'') @ w
      = ''expect(setup.mockAxios.post).toHaveBeenCalledWith('/widgets/query', {\<newline>        filter: ''
              @ X @ '' });'' @ w" for w
    by (simp add: new_assertion_def)
  have c: "clear (hd query_pattern) (X @ old_closer)" using assms(1) by (simp only: old_closer_def)
  show ?thesis
    unfolding i fix_test_expectations_stages query_stage[OF c] params_stage[OF assms(2)]
      closing_stage[OF assms(3)] o ..
qed

theorem query_assertion_rewritten_witness:
  "fix_test_expectations
     ''expect(setup.mockAxios.get).toHaveBeenCalledWith('/widgets/query', { params: { filter: [{ op: eq(1) }] } });''
   = ''expect(setup.mockAxios.post).toHaveBeenCalledWith('/widgets/query', {\<newline>        filter: [{ op: eq(1) }] });''"
proof -
  have e: "fix_test_expectations [] = []" by code_simp
  have 1: "clear (hd query_pattern) (''[{ op: eq(1) }]'' @ '' } });'')" by code_simp
  have 2: "nowhere params_pattern ''[{ op: eq(1) }]''" by code_simp
  have 3: "nowhere closing_pattern ''[{ op: eq(1) }]''" by code_simp
  show ?thesis using query_assertion_rewritten[OF 1 2 3, of "[]" "[]"] unfolding e by simp
qed

text \<open>
  C5 as stated gives a result on one line and needs no semicolon. On the assertion alone
  the wrapper is replaced by a line break and eight spaces, and both closing braces stay.
\<close>

theorem query_assertion_counterexample:
  "fix_test_expectations
     ''expect(setup.mockAxios.get).toHaveBeenCalledWith('/widgets/query', { params: { filter: X } })''
   \<noteq> ''expect(setup.mockAxios.post).toHaveBeenCalledWith('/widgets/query', { filter: X })''"
  by code_simp

subsection \<open>C6: a file that holds the marker is skipped\<close>

text \<open>
  C6. When the file read holds the marker \<^verbatim>\<open>createEntityTestSetup\<close>, whatever else it holds,
  \<^verbatim>\<open>process_file\<close> returns without an error after printing that it skips the file; it
  opens the file for reading only, and no file changes.
\<close>

theorem marker_guard_skips:
  assumes "files w filepath = Some f" and "readable f" and "contains marker (body f)"
  shows "process_file beyond filepath w
           = (Inr (), emit [Print (Processing filepath), OpenRead filepath, Print Skipping] w)
       \<and> files (snd (process_file beyond filepath w)) = files w"
  using process_file_skips[OF assms] by simp

theorem marker_guard_skips_witness:
  "files (snd (process_file no_beyond (path_of ''widgets.test.ts'')
       (example_world [(''widgets.test.ts'', ''mockAxios.get(); setup = createEntityTestSetup(Widgets);'')])))
     = files (example_world [(''widgets.test.ts'', ''mockAxios.get(); setup = createEntityTestSetup(Widgets);'')])"
  using marker_guard_skips[of
      "example_world [(''widgets.test.ts'', ''mockAxios.get(); setup = createEntityTestSetup(Widgets);'')]"
      "path_of ''widgets.test.ts''"
      "\<lparr>body = ''mockAxios.get(); setup = createEntityTestSetup(Widgets);'', readable = True, writable = True\<rparr>"
      no_beyond]
  by (simp add: example_world_def marker_def)

subsection \<open>C7: the files of the exclusion set\<close>

text \<open>
  C7. In every run of \<^verbatim>\<open>main\<close>, whatever the directory holds and whatever \<^verbatim>\<open>re\<close> does
  with patterns outside the fragment, a file whose name is in the exclusion set has the
  same content after the run, and the run never opens it for writing.
\<close>

theorem excluded_files_untouched:
  assumes "name \<in> set fixed_files"
  shows "files (snd (main beyond w)) (path_of name) = files w (path_of name)
       \<and> OpenWrite (path_of name) \<notin> set (drop (length (trace w)) (trace (snd (main beyond w))))"
proof -
  let ?tf = "filter (\<lambda>f. f \<notin> set fixed_files) (glob w)"
  let ?w = "emit [Print (Found (length ?tf))] w"
  have "name \<notin> set (take 5 ?tf)" using assms by (auto dest: in_set_takeD)
  then have nin: "path_of name \<notin> path_of ` set (take 5 ?tf)" by (auto dest: path_of_inj)
  have m: "main beyond w = process_all beyond 0 (take 5 ?tf) ?w" by (simp add: main_def Let_def)
  have f: "files (snd (main beyond w)) (path_of name) = files w (path_of name)"
    using process_all_other[OF nin, of beyond 0 ?w] m by simp
  obtain es where es: "trace (snd (main beyond w)) = trace ?w @ es" "OpenWrite (path_of name) \<notin> set es"
    using process_all_trace[OF nin, of beyond 0 ?w] m by auto
  have "drop (length (trace w)) (trace (snd (main beyond w))) = Print (Found (length ?tf)) # es"
    using es by simp
  then show ?thesis using f es by simp
qed

theorem excluded_files_untouched_witness:
  "files (snd (main no_beyond
       (example_world [(''companies.test.ts'', ''mockAxios.get();''), (''widgets.test.ts'', ''mockAxios.get();'')])))
     (path_of ''companies.test.ts'')
   = Some \<lparr>body = ''mockAxios.get();'', readable = True, writable = True\<rparr>"
  using excluded_files_untouched[of "''companies.test.ts''" no_beyond
      "example_world [(''companies.test.ts'', ''mockAxios.get();''), (''widgets.test.ts'', ''mockAxios.get();'')]"]
  by (simp add: fixed_files_def example_world_def)

subsection \<open>C8: a file that cannot be read\<close>

text \<open>
  C8. When reading a file raises an I/O error (the file is missing or may not be read),
  \<^verbatim>\<open>process_file\<close> returns that error having opened the file for reading only, so the
  file is not written; \<^verbatim>\<open>main\<close> ends with the same error at that file, in the world the
  failed read left: no file changes after it and the files behind it are not processed.
  (The rewriting stages do no input or output.)
\<close>

theorem read_failure_aborts:
  assumes "take 5 (filter (\<lambda>f. f \<notin> set fixed_files) (glob w)) = before @ name # rest"
    and "process_all beyond 0 before
           (emit [Print (Found (length (filter (\<lambda>f. f \<notin> set fixed_files) (glob w))))] w) = (Inr (), w1)"
    and "read_text w1 (path_of name) = Inl e"
  shows "process_file beyond (path_of name) w1
           = (Inl e, emit [Print (Processing (path_of name)), OpenRead (path_of name)] w1)
       \<and> main beyond w
           = (Inl e, emit [Print (Processing (path_of name)), OpenRead (path_of name)] w1)
       \<and> files (snd (main beyond w)) = files w1"
proof -
  have pf: "process_file beyond (path_of name) w1
           = (Inl e, emit [Print (Processing (path_of name)), OpenRead (path_of name)] w1)"
    using assms(3) by (rule process_file_read_fails)
  have "main beyond w = process_all beyond 0 (before @ name # rest)
          (emit [Print (Found (length (filter (\<lambda>f. f \<notin> set fixed_files) (glob w))))] w)"
    using assms(1) by (simp add: main_def Let_def)
  also have "\<dots> = process_all beyond (0 + length before) (name # rest) w1"
    using assms(2) by (simp add: process_all_append)
  also have "\<dots> = (Inl e, emit [Print (Processing (path_of name)), OpenRead (path_of name)] w1)"
    using pf by simp
  finally show ?thesis using pf by simp
qed

theorem read_failure_aborts_witness:
  "main no_beyond
     ((example_world [(''widgets.test.ts'', ''mockAxios.get();'')])
        \<lparr>entries := [''gone.test.ts'', ''widgets.test.ts'']\<rparr>)
   = (Inl FileNotFoundError,
      emit [Print (Found 2), Print (Processing (path_of ''gone.test.ts'')), OpenRead (path_of ''gone.test.ts'')]
        ((example_world [(''widgets.test.ts'', ''mockAxios.get();'')])
           \<lparr>entries := [''gone.test.ts'', ''widgets.test.ts'']\<rparr>))"
proof -
  let ?w = "(example_world [(''widgets.test.ts'', ''mockAxios.get();'')])
        \<lparr>entries := [''gone.test.ts'', ''widgets.test.ts'']\<rparr>"
  have g: "filter (\<lambda>f. f \<notin> set fixed_files) (glob ?w) = [''gone.test.ts'', ''widgets.test.ts'']"
    by (simp add: glob_def example_world_def fixed_files_def suffix_to_prefix)
  have 1: "take 5 (filter (\<lambda>f. f \<notin> set fixed_files) (glob ?w)) = [] @ ''gone.test.ts'' # [''widgets.test.ts'']"
    using g by simp
  have 2: "process_all no_beyond 0 []
           (emit [Print (Found (length (filter (\<lambda>f. f \<notin> set fixed_files) (glob ?w))))] ?w)
         = (Inr (), emit [Print (Found 2)] ?w)"
    using g by simp
  have 3: "read_text (emit [Print (Found 2)] ?w) (path_of ''gone.test.ts'') = Inl FileNotFoundError"
    by (simp add: read_text_def example_world_def path_of_def)
  show ?thesis using read_failure_aborts[OF 1 2 3] by simp
qed

subsection \<open>C9: the marker after a first run\<close>

text \<open>
  C9 fails on the code for a file whose name has characters special to regular
  expressions: \<^verbatim>\<open>fix_method_calls\<close> puts the entity name into its pattern without
  escaping it. For the file \<^verbatim>\<open>x|.|y.test.ts\<close> the pattern is \<^verbatim>\<open>await x|.|y\.\<close>, whose
  second alternative matches every character of a line; each is replaced by
  \<^verbatim>\<open>await setup.entity.\<close>, the inserted import block included. The file holds the old
  axios import line and no marker; what the first run writes has no marker, and the
  second run does not skip the file but writes it again.
\<close>


theorem unescaped_name_loses_marker:
  "\<exists>c' c''. \<not> contains marker c' \<and>
     process_file no_beyond (path_of ''x|.|y.test.ts'')
       (example_world [(''x|.|y.test.ts'', ''import axios, { AxiosInstance, AxiosResponse } from 'axios';'')])
     = (Inr (),
        emit [Print (Processing (path_of ''x|.|y.test.ts'')), OpenRead (path_of ''x|.|y.test.ts''),
              OpenWrite (path_of ''x|.|y.test.ts''), Print (Updated (path_of ''x|.|y.test.ts''))]
          (example_world [(''x|.|y.test.ts'', c')]))
   \<and> process_file no_beyond (path_of ''x|.|y.test.ts'') (example_world [(''x|.|y.test.ts'', c')])
     = (Inr (),
        emit [Print (Processing (path_of ''x|.|y.test.ts'')), OpenRead (path_of ''x|.|y.test.ts''),
              OpenWrite (path_of ''x|.|y.test.ts''), Print (Updated (path_of ''x|.|y.test.ts''))]
          (example_world [(''x|.|y.test.ts'', c'')]))"
proof -
  let ?p = "path_of ''x|.|y.test.ts''"
  let ?s = "''import axios, { AxiosInstance, AxiosResponse } from 'axios';''"
  have upd: "(example_world [(''x|.|y.test.ts'', s)])
        \<lparr>files := (files (example_world [(''x|.|y.test.ts'', s)]))
            (?p \<mapsto> \<lparr>body = s, readable = True, writable = True\<rparr>\<lparr>body := t\<rparr>)\<rparr>
      = example_world [(''x|.|y.test.ts'', t)]" for s t
    by (simp add: example_world_def)
  have f: "files (example_world [(''x|.|y.test.ts'', s)]) ?p = Some \<lparr>body = s, readable = True, writable = True\<rparr>" for s
    by (simp add: example_world_def)
  have nm: "\<not> contains marker (universal_newlines (body \<lparr>body = ?s, readable = True, writable = True\<rparr>))"
    by code_simp
  obtain c' where c': "apply_fixes no_beyond (get_entity_name_from_file ?p)
        (universal_newlines (body \<lparr>body = ?s, readable = True, writable = True\<rparr>)) = Some c'"
      "CHR ''E'' \<notin> set c'"
    using injected_apply_fixes by blast
  have 1: "process_file no_beyond ?p (example_world [(''x|.|y.test.ts'', ?s)])
     = (Inr (), emit [Print (Processing ?p), OpenRead ?p, OpenWrite ?p, Print (Updated ?p)]
          (example_world [(''x|.|y.test.ts'', c')]))"
    using process_file_updates[OF f _ _ nm c'(1)] unfolding upd by simp
  have nm': "\<not> contains marker (universal_newlines (body \<lparr>body = c', readable = True, writable = True\<rparr>))"
    using no_E_no_marker[OF c'(2)] by simp
  obtain c'' where c'': "apply_fixes no_beyond (get_entity_name_from_file ?p)
        (universal_newlines (body \<lparr>body = c', readable = True, writable = True\<rparr>)) = Some c''"
    using injected_apply_fixes by blast
  have 2: "process_file no_beyond ?p (example_world [(''x|.|y.test.ts'', c')])
     = (Inr (), emit [Print (Processing ?p), OpenRead ?p, OpenWrite ?p, Print (Updated ?p)]
          (example_world [(''x|.|y.test.ts'', c'')]))"
    using process_file_updates[OF f _ _ nm' c''] unfolding upd by simp
  have "\<not> contains marker c'" using marker_needs_E c'(2) by blast
  then show ?thesis using 1 2 by blast
qed

subsection \<open>C10: the unused rewriting of the set-up block\<close>




end
